theory Spec2Isabelle
  imports Main "HOL-Library.Word"
begin

unbundle bit_operations_syntax

section \<open>Data model of qoi.h\<close>

type_synonym byte = "8 word"
type_synonym u32 = "32 word"

text \<open>
  \<^verbatim>\<open>typedef union { struct { unsigned char r, g, b, a; } rgba; unsigned int v; } qoi_rgba_t;\<close>
  The four channels are the record; the 32-bit view \<^verbatim>\<open>v\<close> is only ever compared
  for equality, which is equality of the four channels.
\<close>

record qoi_rgba_t =
  rgba_r :: byte
  rgba_g :: byte
  rgba_b :: byte
  rgba_a :: byte

record qoi_desc =
  width :: u32
  height :: u32
  channels :: byte
  colorspace :: byte

text \<open>The chunk tags are \<^verbatim>\<open>int\<close> constants in the source.\<close>

definition QOI_OP_INDEX :: int where "QOI_OP_INDEX = 0x00"
definition QOI_OP_DIFF :: int where "QOI_OP_DIFF = 0x40"
definition QOI_OP_LUMA :: int where "QOI_OP_LUMA = 0x80"
definition QOI_OP_RUN :: int where "QOI_OP_RUN = 0xc0"
definition QOI_OP_RGB :: int where "QOI_OP_RGB = 0xfe"
definition QOI_OP_RGBA :: int where "QOI_OP_RGBA = 0xff"
definition QOI_MASK_2 :: int where "QOI_MASK_2 = 0xc0"

definition QOI_COLOR_HASH :: "qoi_rgba_t \<Rightarrow> nat" where
  "QOI_COLOR_HASH C =
     unat (rgba_r C) * 3 + unat (rgba_g C) * 5 + unat (rgba_b C) * 7 + unat (rgba_a C) * 11"

text \<open>\<^verbatim>\<open>'q' << 24 | 'o' << 16 | 'i' << 8 | 'f'\<close>\<close>

definition QOI_MAGIC :: u32 where
  "QOI_MAGIC = push_bit 24 0x71 OR push_bit 16 0x6f OR push_bit 8 0x69 OR 0x66"

definition QOI_HEADER_SIZE :: nat where "QOI_HEADER_SIZE = 14"
definition QOI_PIXELS_MAX :: u32 where "QOI_PIXELS_MAX = 400000000"

definition qoi_padding :: "byte list" where
  "qoi_padding = [0, 0, 0, 0, 0, 0, 0, 1]"

definition zero_px :: qoi_rgba_t where
  "zero_px = \<lparr>rgba_r = 0, rgba_g = 0, rgba_b = 0, rgba_a = 0\<rparr>"

definition start_px :: qoi_rgba_t where
  "start_px = \<lparr>rgba_r = 0, rgba_g = 0, rgba_b = 0, rgba_a = 255\<rparr>"

section \<open>Byte I/O primitives\<close>

text \<open>
  The output buffer and its cursor \<^verbatim>\<open>p\<close> are one list: the cursor starts at 0 and every
  write is \<^verbatim>\<open>bytes[p++] = v\<close>, so the bytes written so far are the list and \<^verbatim>\<open>p\<close> is its
  length. The offset of a write is the length of the list before it.
\<close>

definition qoi_write_16 :: "byte list \<Rightarrow> u32 \<Rightarrow> byte list" where
  "qoi_write_16 bytes v =
     bytes @ [ucast (drop_bit 8 (0x0000ff00 AND v)), ucast (0x000000ff AND v)]"

definition qoi_write_24 :: "byte list \<Rightarrow> u32 \<Rightarrow> byte list" where
  "qoi_write_24 bytes v =
     bytes @ [ucast (drop_bit 16 (0x00ff0000 AND v)), ucast (drop_bit 8 (0x0000ff00 AND v)),
              ucast (0x000000ff AND v)]"

definition qoi_write_32 :: "byte list \<Rightarrow> u32 \<Rightarrow> byte list" where
  "qoi_write_32 bytes v =
     bytes @ [ucast (drop_bit 24 (0xff000000 AND v)), ucast (drop_bit 16 (0x00ff0000 AND v)),
              ucast (drop_bit 8 (0x0000ff00 AND v)), ucast (0x000000ff AND v)]"

text \<open>The readers return the value; the cursor advances by the width at the call site.\<close>

definition qoi_read_16 :: "byte list \<Rightarrow> nat \<Rightarrow> u32" where
  "qoi_read_16 bytes p =
     (let c = ucast (bytes ! p); d = ucast (bytes ! (p + 1)) in push_bit 8 c OR d)"

definition qoi_read_24 :: "byte list \<Rightarrow> nat \<Rightarrow> u32" where
  "qoi_read_24 bytes p =
     (let b = ucast (bytes ! p); c = ucast (bytes ! (p + 1)); d = ucast (bytes ! (p + 2))
      in push_bit 16 b OR push_bit 8 c OR d)"

definition qoi_read_32 :: "byte list \<Rightarrow> nat \<Rightarrow> u32" where
  "qoi_read_32 bytes p =
     (let a = ucast (bytes ! p); b = ucast (bytes ! (p + 1)); c = ucast (bytes ! (p + 2));
          d = ucast (bytes ! (p + 3))
      in push_bit 24 a OR push_bit 16 b OR push_bit 8 c OR d)"

section \<open>Base encoder\<close>

text \<open>
  The locals of \<^verbatim>\<open>qoi_encode\<close> and \<^verbatim>\<open>qoi_huff_encode\<close> that the pixel loop changes.
  \<^verbatim>\<open>histo\<close> exists in \<^verbatim>\<open>qoi_huff_encode\<close> only; \<^verbatim>\<open>qoi_encode\<close> never touches it.
\<close>

record enc_state =
  e_bytes :: "byte list"
  e_histo :: "u32 list"
  e_index :: "qoi_rgba_t list"
  e_run :: nat
  e_px :: qoi_rgba_t
  e_px_prev :: qoi_rgba_t

text \<open>The two write primitives of the loops: \<^verbatim>\<open>bytes[p++] = v\<close> and \<^verbatim>\<open>qoi_write_8_histo\<close>.\<close>

definition write_8 :: "enc_state \<Rightarrow> byte \<Rightarrow> enc_state" where
  "write_8 st v = st\<lparr>e_bytes := e_bytes st @ [v]\<rparr>"

definition qoi_write_8_histo :: "enc_state \<Rightarrow> byte \<Rightarrow> enc_state" where
  "qoi_write_8_histo st v =
     st\<lparr>e_bytes := e_bytes st @ [v],
        e_histo := (e_histo st)[unat v := e_histo st ! unat v + 1]\<rparr>"

text \<open>
  Line 476-483: the pixel at \<^verbatim>\<open>px_pos\<close>. With 3 channels the alpha of \<^verbatim>\<open>px\<close> keeps the value
  it had.
\<close>

definition read_px :: "byte list \<Rightarrow> nat \<Rightarrow> nat \<Rightarrow> qoi_rgba_t \<Rightarrow> qoi_rgba_t" where
  "read_px pixels chans px_pos px =
     (if chans = 4
      then \<lparr>rgba_r = pixels ! px_pos, rgba_g = pixels ! (px_pos + 1),
            rgba_b = pixels ! (px_pos + 2), rgba_a = pixels ! (px_pos + 3)\<rparr>
      else px\<lparr>rgba_r := pixels ! (px_pos + 0), rgba_g := pixels ! (px_pos + 1),
              rgba_b := pixels ! (px_pos + 2)\<rparr>)"

text \<open>
  Lines 508-544: the chunk for a pixel that is neither a run nor an index hit. The
  differences are \<^verbatim>\<open>signed char\<close>: 8-bit words read with \<open>sint\<close>. The chunk bytes are
  computed in \<^verbatim>\<open>int\<close> and stored into \<^verbatim>\<open>unsigned char\<close>, which keeps the low 8 bits
  (\<open>word_of_int\<close>).
\<close>

definition encode_diff ::
  "(enc_state \<Rightarrow> byte \<Rightarrow> enc_state) \<Rightarrow> qoi_rgba_t \<Rightarrow> qoi_rgba_t \<Rightarrow> enc_state \<Rightarrow> enc_state" where
  "encode_diff wr px px_prev st =
     (if rgba_a px = rgba_a px_prev then
        (let vr = rgba_r px - rgba_r px_prev;
             vg = rgba_g px - rgba_g px_prev;
             vb = rgba_b px - rgba_b px_prev;
             vg_r = vr - vg;
             vg_b = vb - vg
         in if sint vr > -3 \<and> sint vr < 2 \<and> sint vg > -3 \<and> sint vg < 2 \<and>
               sint vb > -3 \<and> sint vb < 2
            then wr st (word_of_int (QOI_OP_DIFF OR push_bit 4 (sint vr + 2) OR
                                      push_bit 2 (sint vg + 2) OR (sint vb + 2)))
            else if sint vg_r > -9 \<and> sint vg_r < 8 \<and> sint vg > -33 \<and> sint vg < 32 \<and>
                    sint vg_b > -9 \<and> sint vg_b < 8
            then wr (wr st (word_of_int (QOI_OP_LUMA OR (sint vg + 32))))
                    (word_of_int (push_bit 4 (sint vg_r + 8) OR (sint vg_b + 8)))
            else wr (wr (wr (wr st (word_of_int QOI_OP_RGB)) (rgba_r px)) (rgba_g px)) (rgba_b px))
      else wr (wr (wr (wr (wr st (word_of_int QOI_OP_RGBA)) (rgba_r px)) (rgba_g px)) (rgba_b px)) (rgba_a px))"

text \<open>Lines 476-547: one iteration of the pixel loop.\<close>

definition qoi_encode_px ::
  "(enc_state \<Rightarrow> byte \<Rightarrow> enc_state) \<Rightarrow> byte list \<Rightarrow> nat \<Rightarrow> nat \<Rightarrow> nat \<Rightarrow> enc_state \<Rightarrow> enc_state" where
  "qoi_encode_px wr pixels chans px_end px_pos st0 =
     (let px = read_px pixels chans px_pos (e_px st0);
          st = st0\<lparr>e_px := px\<rparr>;
          st' =
            (if px = e_px_prev st then
               (let st1 = st\<lparr>e_run := e_run st + 1\<rparr>
                in if e_run st1 = 62 \<or> px_pos = px_end
                   then (wr st1 (word_of_int (QOI_OP_RUN OR (int (e_run st1) - 1))))\<lparr>e_run := 0\<rparr>
                   else st1)
             else
               (let st1 = (if e_run st > 0
                           then (wr st (word_of_int (QOI_OP_RUN OR (int (e_run st) - 1))))\<lparr>e_run := 0\<rparr>
                           else st);
                    index_pos = QOI_COLOR_HASH px mod 64
                in if e_index st1 ! index_pos = px
                   then wr st1 (word_of_int (QOI_OP_INDEX OR int index_pos))
                   else encode_diff wr px (e_px_prev st1)
                          (st1\<lparr>e_index := (e_index st1)[index_pos := px]\<rparr>)))
      in st'\<lparr>e_px_prev := px\<rparr>)"

text \<open>
  Line 475: \<^verbatim>\<open>for (px_pos = 0; px_pos < px_len; px_pos += channels)\<close>. The loop is only
  entered with \<^verbatim>\<open>channels\<close> 3 or 4 (line 436); the test \<open>0 < chans\<close> is what makes the
  recursion defined for every argument.
\<close>

function qoi_encode_loop ::
  "(enc_state \<Rightarrow> byte \<Rightarrow> enc_state) \<Rightarrow> byte list \<Rightarrow> nat \<Rightarrow> nat \<Rightarrow> nat \<Rightarrow> nat \<Rightarrow> enc_state \<Rightarrow> enc_state" where
  "qoi_encode_loop wr pixels chans px_len px_end px_pos st =
     (if px_pos < px_len \<and> 0 < chans
      then qoi_encode_loop wr pixels chans px_len px_end (px_pos + chans)
             (qoi_encode_px wr pixels chans px_end px_pos st)
      else st)"
  by pat_completeness auto
termination
  by (relation "measure (\<lambda>(wr, pixels, chans, px_len, px_end, px_pos, st). px_len - px_pos)") auto

declare qoi_encode_loop.simps [simp del]

text \<open>Lines 433-439 and 786-792: the parameter check shared by both encoders.\<close>

definition desc_invalid :: "qoi_desc \<Rightarrow> bool" where
  "desc_invalid desc \<longleftrightarrow>
     width desc = 0 \<or> height desc = 0 \<or>
     channels desc < 3 \<or> channels desc > 4 \<or>
     colorspace desc > 1 \<or>
     height desc \<ge> QOI_PIXELS_MAX div width desc"

text \<open>
  Lines 443-445: \<^verbatim>\<open>width * height * (channels + 1) + QOI_HEADER_SIZE\<close> is computed in
  \<^verbatim>\<open>unsigned int\<close>, the \<^verbatim>\<open>sizeof\<close> is added in \<^verbatim>\<open>size_t\<close>.
\<close>

definition max_size :: "qoi_desc \<Rightarrow> nat" where
  "max_size desc =
     unat (width desc * height desc * (ucast (channels desc) + 1) + 14) + length qoi_padding"

definition enc_init :: "qoi_desc \<Rightarrow> byte \<Rightarrow> enc_state" where
  "enc_init desc cs =
     \<lparr>e_bytes = qoi_write_32 (qoi_write_32 (qoi_write_32 [] QOI_MAGIC) (width desc)) (height desc)
                 @ [channels desc] @ [cs],
      e_histo = replicate 256 0,
      e_index = replicate 64 zero_px,
      e_run = 0,
      e_px = start_px,
      e_px_prev = start_px\<rparr>"

text \<open>Lines 453-548: header and pixel loop, up to the padding.\<close>

definition encode_pixels ::
  "(enc_state \<Rightarrow> byte \<Rightarrow> enc_state) \<Rightarrow> byte list \<Rightarrow> qoi_desc \<Rightarrow> byte \<Rightarrow> enc_state" where
  "encode_pixels wr pixels desc cs =
     (let px_len = unat (width desc * height desc * ucast (channels desc));
          px_end = px_len - unat (channels desc);
          chans = unat (channels desc)
      in qoi_encode_loop wr pixels chans px_len px_end 0 (enc_init desc cs))"

text \<open>
  \<^verbatim>\<open>void* qoi_encode(const void* data, const qoi_desc* desc, int* out_len)\<close>.
  A null pointer is \<open>None\<close> (for \<^verbatim>\<open>out_len\<close>, which is only written, \<open>False\<close>);
  \<open>alloc n\<close> says whether \<^verbatim>\<open>QOI_MALLOC(n)\<close> succeeds. The result is the written part of
  the buffer together with \<^verbatim>\<open>*out_len\<close>, or \<open>None\<close> for \<^verbatim>\<open>NULL\<close>.
\<close>

definition qoi_encode ::
  "(nat \<Rightarrow> bool) \<Rightarrow> byte list option \<Rightarrow> qoi_desc option \<Rightarrow> bool \<Rightarrow> (byte list \<times> nat) option" where
  "qoi_encode alloc data desc out_len =
     (case (data, desc) of
        (Some pixels, Some d) \<Rightarrow>
          if \<not> out_len \<or> desc_invalid d then None
          else if \<not> alloc (max_size d) then None
          else
            (let st = encode_pixels write_8 pixels d (colorspace d);
                 bytes = foldl (\<lambda>bs v. bs @ [v]) (e_bytes st) qoi_padding
             in Some (bytes, length bytes))
      | _ \<Rightarrow> None)"

section \<open>Base decoder\<close>

text \<open>
  The locals of the decoding loop. The output buffer \<^verbatim>\<open>pixels\<close> and \<^verbatim>\<open>px_pos\<close> are one list:
  every iteration writes \<^verbatim>\<open>channels\<close> bytes at \<^verbatim>\<open>px_pos\<close> and advances \<^verbatim>\<open>px_pos\<close> by as much.
\<close>

record dec_state =
  d_p :: nat
  d_run :: int
  d_index :: "qoi_rgba_t list"
  d_px :: qoi_rgba_t
  d_pixels :: "byte list"

text \<open>
  Lines 615-647: one chunk. \<^verbatim>\<open>b1\<close>, \<^verbatim>\<open>b2\<close> and \<^verbatim>\<open>vg\<close> are \<^verbatim>\<open>int\<close>; \<^verbatim>\<open>px.rgba.r += e\<close> adds in
  \<^verbatim>\<open>int\<close> and stores the low 8 bits.
\<close>

definition decode_chunk :: "byte list \<Rightarrow> dec_state \<Rightarrow> dec_state" where
  "decode_chunk bytes st =
     (let b1 = uint (bytes ! d_p st);
          p = d_p st + 1;
          px = d_px st;
          st1 =
            (if b1 = QOI_OP_RGB then
               st\<lparr>d_px := px\<lparr>rgba_r := bytes ! p, rgba_g := bytes ! (p + 1),
                               rgba_b := bytes ! (p + 2)\<rparr>,
                  d_p := p + 3\<rparr>
             else if b1 = QOI_OP_RGBA then
               st\<lparr>d_px := px\<lparr>rgba_r := bytes ! p, rgba_g := bytes ! (p + 1),
                               rgba_b := bytes ! (p + 2), rgba_a := bytes ! (p + 3)\<rparr>,
                  d_p := p + 4\<rparr>
             else if b1 AND QOI_MASK_2 = QOI_OP_INDEX then
               st\<lparr>d_px := d_index st ! nat b1, d_p := p\<rparr>
             else if b1 AND QOI_MASK_2 = QOI_OP_DIFF then
               st\<lparr>d_px := px\<lparr>rgba_r := word_of_int (uint (rgba_r px) + ((drop_bit 4 b1 AND 0x03) - 2)),
                               rgba_g := word_of_int (uint (rgba_g px) + ((drop_bit 2 b1 AND 0x03) - 2)),
                               rgba_b := word_of_int (uint (rgba_b px) + ((b1 AND 0x03) - 2))\<rparr>,
                  d_p := p\<rparr>
             else if b1 AND QOI_MASK_2 = QOI_OP_LUMA then
               (let b2 = uint (bytes ! p);
                    vg = (b1 AND 0x3f) - 32
                in st\<lparr>d_px := px\<lparr>rgba_r := word_of_int (uint (rgba_r px) + (vg - 8 + (drop_bit 4 b2 AND 0x0f))),
                                   rgba_g := word_of_int (uint (rgba_g px) + vg),
                                   rgba_b := word_of_int (uint (rgba_b px) + (vg - 8 + (b2 AND 0x0f)))\<rparr>,
                      d_p := p + 1\<rparr>)
             else if b1 AND QOI_MASK_2 = QOI_OP_RUN then
               st\<lparr>d_run := b1 AND 0x3f, d_p := p\<rparr>
             else st\<lparr>d_p := p\<rparr>)
      in st1\<lparr>d_index := (d_index st1)[QOI_COLOR_HASH (d_px st1) mod 64 := d_px st1]\<rparr>)"

text \<open>Lines 650-657: the pixel as it is stored in the output.\<close>

definition px_bytes :: "int \<Rightarrow> qoi_rgba_t \<Rightarrow> byte list" where
  "px_bytes chans px =
     (if chans = 4 then [rgba_r px, rgba_g px, rgba_b px, rgba_a px]
      else [rgba_r px, rgba_g px, rgba_b px])"

text \<open>Lines 611-657: one iteration of the decoding loop.\<close>

definition qoi_decode_px :: "byte list \<Rightarrow> int \<Rightarrow> int \<Rightarrow> dec_state \<Rightarrow> dec_state" where
  "qoi_decode_px bytes chunks_len chans st =
     (let st1 = (if d_run st > 0 then st\<lparr>d_run := d_run st - 1\<rparr>
                 else if int (d_p st) < chunks_len then decode_chunk bytes st
                 else st)
      in st1\<lparr>d_pixels := d_pixels st1 @ px_bytes chans (d_px st1)\<rparr>)"

text \<open>
  Line 610: \<^verbatim>\<open>for (px_pos = 0; px_pos < px_len; px_pos += channels)\<close>, with \<^verbatim>\<open>channels\<close> 3 or 4
  on entry (lines 569 and 585, 593); \<open>0 < chans\<close> makes the recursion defined for every
  argument.
\<close>

function qoi_decode_loop ::
  "byte list \<Rightarrow> int \<Rightarrow> int \<Rightarrow> int \<Rightarrow> int \<Rightarrow> dec_state \<Rightarrow> dec_state" where
  "qoi_decode_loop bytes chunks_len chans px_len px_pos st =
     (if px_pos < px_len \<and> 0 < chans
      then qoi_decode_loop bytes chunks_len chans px_len (px_pos + chans)
             (qoi_decode_px bytes chunks_len chans st)
      else st)"
  by pat_completeness auto
termination
  by (relation "measure (\<lambda>(bytes, chunks_len, chans, px_len, px_pos, st). nat (px_len - px_pos))")
    auto

declare qoi_decode_loop.simps [simp del]

definition dec_init :: "nat \<Rightarrow> dec_state" where
  "dec_init p =
     \<lparr>d_p = p, d_run = 0, d_index = replicate 64 zero_px, d_px = start_px, d_pixels = []\<rparr>"

text \<open>
  \<^verbatim>\<open>qoi_decode_buffer(bytes, p, pixels, size, px_len, channels)\<close>, lines 1069-1131; the
  same statements are inlined in \<^verbatim>\<open>qoi_decode\<close> at lines 603-658.
\<close>

definition qoi_decode_buffer :: "byte list \<Rightarrow> nat \<Rightarrow> int \<Rightarrow> int \<Rightarrow> int \<Rightarrow> dec_state" where
  "qoi_decode_buffer bytes p sz px_len chans =
     (let chunks_len = sz - int (length qoi_padding)
      in qoi_decode_loop bytes chunks_len chans px_len 0 (dec_init p))"

text \<open>Lines 577-591: the header fields and their check.\<close>

definition read_desc :: "byte list \<Rightarrow> qoi_desc" where
  "read_desc bytes =
     \<lparr>width = qoi_read_32 bytes 4, height = qoi_read_32 bytes 8,
      channels = bytes ! 12, colorspace = bytes ! 13\<rparr>"

text \<open>
  \<^verbatim>\<open>void* qoi_decode(const void* data, int size, qoi_desc* desc, int channels)\<close>.
  \<open>data\<close> is the buffer of \<^verbatim>\<open>size\<close> bytes (\<open>sz\<close>, its length), \<open>None\<close> for \<^verbatim>\<open>NULL\<close>; \<open>desc\<close> says whether the
  descriptor pointer is non-null. The result is the pixel buffer and the descriptor as
  filled in, or \<open>None\<close> for \<^verbatim>\<open>NULL\<close>.
\<close>

definition qoi_decode ::
  "(nat \<Rightarrow> bool) \<Rightarrow> byte list option \<Rightarrow> bool \<Rightarrow> int \<Rightarrow> (byte list \<times> qoi_desc) option" where
  "qoi_decode alloc data desc chans =
     (case data of
        None \<Rightarrow> None
      | Some bytes \<Rightarrow>
          (let sz = int (length bytes) in
           if \<not> desc \<or> (chans \<noteq> 0 \<and> chans \<noteq> 3 \<and> chans \<noteq> 4) \<or>
              sz < int QOI_HEADER_SIZE + int (length qoi_padding)
           then None
           else
             (let header_magic = qoi_read_32 bytes 0;
                  d = read_desc bytes
              in if desc_invalid d \<or> header_magic \<noteq> QOI_MAGIC then None
                 else
                   (let chans' = (if chans = 0 then uint (channels d) else chans);
                        px_len = uint (width d * height d * word_of_int chans')
                    in if \<not> alloc (nat px_len) then None
                       else Some (d_pixels (qoi_decode_buffer bytes 14 sz px_len chans'), d)))))"

section \<open>Chunk bytes: what the decoder reads back\<close>

lemma run_byte_facts:
  "\<forall>x\<in>{0..<62::int}. (let b1 = 0xc0 OR x in
      0 \<le> b1 \<and> b1 < 256 \<and> b1 \<noteq> 0xfe \<and> b1 \<noteq> 0xff \<and> b1 AND 0xc0 = 0xc0 \<and> b1 AND 0x3f = x)"
  by code_simp

lemma index_byte_facts:
  "\<forall>x\<in>{0..<64::int}. (let b1 = 0x00 OR x in
      0 \<le> b1 \<and> b1 < 256 \<and> b1 \<noteq> 0xfe \<and> b1 \<noteq> 0xff \<and> b1 AND 0xc0 = 0x00 \<and> b1 = x)"
  by code_simp

lemma diff_byte_facts:
  "\<forall>vr\<in>{-2..1::int}. \<forall>vg\<in>{-2..1::int}. \<forall>vb\<in>{-2..1::int}.
     (let b1 = 0x40 OR push_bit 4 (vr + 2) OR push_bit 2 (vg + 2) OR (vb + 2) in
      0 \<le> b1 \<and> b1 < 256 \<and> b1 \<noteq> 0xfe \<and> b1 \<noteq> 0xff \<and> b1 AND 0xc0 = 0x40 \<and>
      (drop_bit 4 b1 AND 0x03) - 2 = vr \<and> (drop_bit 2 b1 AND 0x03) - 2 = vg \<and>
      (b1 AND 0x03) - 2 = vb)"
  by code_simp

lemma luma_byte1_facts:
  "\<forall>vg\<in>{-32..31::int}. (let b1 = 0x80 OR (vg + 32) in
      0 \<le> b1 \<and> b1 < 256 \<and> b1 \<noteq> 0xfe \<and> b1 \<noteq> 0xff \<and> b1 AND 0xc0 = 0x80 \<and>
      (b1 AND 0x3f) - 32 = vg)"
  by code_simp

lemma luma_byte2_facts:
  "\<forall>x\<in>{-8..7::int}. \<forall>y\<in>{-8..7::int}. (let b2 = push_bit 4 (x + 8) OR (y + 8) in
      0 \<le> b2 \<and> b2 < 256 \<and> (drop_bit 4 b2 AND 0x0f) = x + 8 \<and> (b2 AND 0x0f) = y + 8)"
  by code_simp

lemma uint_byte_of_int: "0 \<le> k \<Longrightarrow> k < 256 \<Longrightarrow> uint (word_of_int k :: byte) = k"
  by (simp add: uint_word_of_int_eq take_bit_int_eq_self)

lemma uint_byte_of_nat: "i < 256 \<Longrightarrow> uint (of_nat i :: byte) = int i"
  using uint_byte_of_int[of "int i"] by simp

lemma byte_add_sint: "word_of_int (uint (a::byte) + sint (b - a)) = b"
  by simp

lemma decode_chunk_run:
  assumes b: "bs ! d_p D = word_of_int (QOI_OP_RUN OR (int r - 1))" and r: "1 \<le> r" "r \<le> 62"
  shows "decode_chunk bs D =
           D\<lparr>d_p := d_p D + 1, d_run := int r - 1,
             d_index := (d_index D)[QOI_COLOR_HASH (d_px D) mod 64 := d_px D]\<rparr>"
proof -
  have "int r - 1 \<in> {0..<62}" using r by auto
  with run_byte_facts have f: "let b1 = 0xc0 OR (int r - 1) in
      0 \<le> b1 \<and> b1 < 256 \<and> b1 \<noteq> 0xfe \<and> b1 \<noteq> 0xff \<and> b1 AND 0xc0 = 0xc0 \<and> b1 AND 0x3f = int r - 1"
    by blast
  then have u: "uint (bs ! d_p D) = 0xc0 OR (int r - 1)"
    unfolding b QOI_OP_RUN_def by (simp add: Let_def uint_byte_of_int)
  show ?thesis
    unfolding decode_chunk_def u Let_def using f
    by (simp add: Let_def QOI_OP_RGB_def QOI_OP_RGBA_def QOI_MASK_2_def QOI_OP_INDEX_def
        QOI_OP_DIFF_def QOI_OP_LUMA_def QOI_OP_RUN_def)
qed

lemma decode_chunk_index:
  assumes b: "bs ! d_p D = word_of_int (QOI_OP_INDEX OR int i)" and i: "i < 64"
  shows "decode_chunk bs D =
           D\<lparr>d_p := d_p D + 1, d_px := d_index D ! i,
             d_index := (d_index D)[QOI_COLOR_HASH (d_index D ! i) mod 64 := d_index D ! i]\<rparr>"
proof -
  have "int i \<in> {0..<64}" using i by auto
  with index_byte_facts have f: "let b1 = 0x00 OR int i in
      0 \<le> b1 \<and> b1 < 256 \<and> b1 \<noteq> 0xfe \<and> b1 \<noteq> 0xff \<and> b1 AND 0xc0 = 0x00 \<and> b1 = int i"
    by blast
  then have u: "uint (bs ! d_p D) = int i"
    unfolding b QOI_OP_INDEX_def by (simp add: Let_def uint_byte_of_nat)
  show ?thesis
    unfolding decode_chunk_def u Let_def using f
    by (simp add: Let_def QOI_OP_RGB_def QOI_OP_RGBA_def QOI_MASK_2_def QOI_OP_INDEX_def
        QOI_OP_DIFF_def QOI_OP_LUMA_def QOI_OP_RUN_def)
qed

lemma Suc3_eq: "Suc (Suc (Suc n)) = n + 3" by simp

lemma decode_chunk_rgb:
  assumes b: "bs ! d_p D = word_of_int QOI_OP_RGB"
    and c: "bs ! (d_p D + 1) = rgba_r px" "bs ! (d_p D + 2) = rgba_g px"
           "bs ! (d_p D + 3) = rgba_b px" "rgba_a (d_px D) = rgba_a px"
  shows "decode_chunk bs D =
           D\<lparr>d_p := d_p D + 4, d_px := px,
             d_index := (d_index D)[QOI_COLOR_HASH px mod 64 := px]\<rparr>"
proof -
  have u: "uint (bs ! d_p D) = 0xfe"
    unfolding b QOI_OP_RGB_def by (simp add: Let_def uint_byte_of_int)
  have e: "(d_px D)\<lparr>rgba_r := bs ! (d_p D + 1), rgba_g := bs ! (d_p D + 1 + 1),
                               rgba_b := bs ! (d_p D + 1 + 2)\<rparr> = px"
    using c by (intro qoi_rgba_t.equality) (simp_all add: Suc3_eq add.commute)
  show ?thesis
    unfolding decode_chunk_def u Let_def e
    by (simp add: QOI_OP_RGB_def QOI_OP_RGBA_def)
qed

lemma decode_chunk_rgba:
  assumes b: "bs ! d_p D = word_of_int QOI_OP_RGBA"
    and c: "bs ! (d_p D + 1) = rgba_r px" "bs ! (d_p D + 2) = rgba_g px"
           "bs ! (d_p D + 3) = rgba_b px" "bs ! (d_p D + 4) = rgba_a px"
  shows "decode_chunk bs D =
           D\<lparr>d_p := d_p D + 5, d_px := px,
             d_index := (d_index D)[QOI_COLOR_HASH px mod 64 := px]\<rparr>"
proof -
  have u: "uint (bs ! d_p D) = 0xff"
    unfolding b QOI_OP_RGBA_def by (simp add: Let_def uint_byte_of_int)
  have e: "(d_px D)\<lparr>rgba_r := bs ! (d_p D + 1), rgba_g := bs ! (d_p D + 1 + 1),
                     rgba_b := bs ! (d_p D + 1 + 2), rgba_a := bs ! (d_p D + 1 + 3)\<rparr> = px"
    using c by (intro qoi_rgba_t.equality) (simp_all add: Suc3_eq add.commute)
  show ?thesis
    unfolding decode_chunk_def u Let_def e
    by (simp add: QOI_OP_RGB_def QOI_OP_RGBA_def)
qed

lemma decode_chunk_diff:
  assumes b: "bs ! d_p D = word_of_int (QOI_OP_DIFF OR push_bit 4 (sint vr + 2) OR
                                      push_bit 2 (sint vg + 2) OR (sint vb + 2))"
    and v: "vr = rgba_r px - rgba_r (d_px D)" "vg = rgba_g px - rgba_g (d_px D)"
           "vb = rgba_b px - rgba_b (d_px D)" "rgba_a (d_px D) = rgba_a px"
    and g: "sint vr > -3" "sint vr < 2" "sint vg > -3" "sint vg < 2" "sint vb > -3" "sint vb < 2"
  shows "decode_chunk bs D =
           D\<lparr>d_p := d_p D + 1, d_px := px,
             d_index := (d_index D)[QOI_COLOR_HASH px mod 64 := px]\<rparr>"
proof -
  define b1 where "b1 = 0x40 OR push_bit 4 (sint vr + 2) OR push_bit 2 (sint vg + 2) OR (sint vb + 2)"
  have "sint vr \<in> {-2..1}" "sint vg \<in> {-2..1}" "sint vb \<in> {-2..1}" using g by auto
  with diff_byte_facts have f: "0 \<le> b1 \<and> b1 < 256 \<and> b1 \<noteq> 0xfe \<and> b1 \<noteq> 0xff \<and> b1 AND 0xc0 = 0x40 \<and>
      (drop_bit 4 b1 AND 0x03) - 2 = sint vr \<and> (drop_bit 2 b1 AND 0x03) - 2 = sint vg \<and>
      (b1 AND 0x03) - 2 = sint vb"
    unfolding b1_def Let_def by blast
  then have u: "uint (bs ! d_p D) = b1"
    unfolding b QOI_OP_DIFF_def b1_def[symmetric] by (simp add: uint_byte_of_int)
  have e: "(d_px D)\<lparr>rgba_r := word_of_int (uint (rgba_r (d_px D)) + ((drop_bit 4 b1 AND 0x03) - 2)),
                               rgba_g := word_of_int (uint (rgba_g (d_px D)) + ((drop_bit 2 b1 AND 0x03) - 2)),
                               rgba_b := word_of_int (uint (rgba_b (d_px D)) + ((b1 AND 0x03) - 2))\<rparr> = px"
    using f v by (intro qoi_rgba_t.equality) simp_all
  show ?thesis
    unfolding decode_chunk_def u Let_def e using f
    by (simp add: QOI_OP_RGB_def QOI_OP_RGBA_def QOI_MASK_2_def QOI_OP_INDEX_def
        QOI_OP_DIFF_def QOI_OP_LUMA_def QOI_OP_RUN_def)
qed

lemma decode_chunk_luma:
  assumes b: "bs ! d_p D = word_of_int (QOI_OP_LUMA OR (sint vg + 32))"
             "bs ! (d_p D + 1) = word_of_int (push_bit 4 (sint vg_r + 8) OR (sint vg_b + 8))"
    and v: "vr = rgba_r px - rgba_r (d_px D)" "vg = rgba_g px - rgba_g (d_px D)"
           "vb = rgba_b px - rgba_b (d_px D)" "rgba_a (d_px D) = rgba_a px"
           "vg_r = vr - vg" "vg_b = vb - vg"
    and g: "sint vg_r > -9" "sint vg_r < 8" "sint vg > -33" "sint vg < 32"
           "sint vg_b > -9" "sint vg_b < 8"
  shows "decode_chunk bs D =
           D\<lparr>d_p := d_p D + 2, d_px := px,
             d_index := (d_index D)[QOI_COLOR_HASH px mod 64 := px]\<rparr>"
proof -
  define b1 where "b1 = 0x80 OR (sint vg + 32)"
  define b2 where "b2 = push_bit 4 (sint vg_r + 8) OR (sint vg_b + 8)"
  have "sint vg \<in> {-32..31}" "sint vg_r \<in> {-8..7}" "sint vg_b \<in> {-8..7}" using g by auto
  with luma_byte1_facts luma_byte2_facts
  have f: "0 \<le> b1 \<and> b1 < 256 \<and> b1 \<noteq> 0xfe \<and> b1 \<noteq> 0xff \<and> b1 AND 0xc0 = 0x80 \<and>
      (b1 AND 0x3f) - 32 = sint vg"
    and f2: "0 \<le> b2 \<and> b2 < 256 \<and> (drop_bit 4 b2 AND 0x0f) = sint vg_r + 8 \<and> (b2 AND 0x0f) = sint vg_b + 8"
    unfolding b1_def b2_def Let_def by blast+
  then have u: "uint (bs ! d_p D) = b1" "uint (bs ! (d_p D + 1)) = b2"
    unfolding b QOI_OP_LUMA_def b1_def[symmetric] b2_def[symmetric] by (simp_all add: uint_byte_of_int)
  have e: "(d_px D)\<lparr>rgba_r := word_of_int (uint (rgba_r (d_px D)) + ((b1 AND 0x3f) - 32 - 8 + (drop_bit 4 b2 AND 0x0f))),
                                   rgba_g := word_of_int (uint (rgba_g (d_px D)) + ((b1 AND 0x3f) - 32)),
                                   rgba_b := word_of_int (uint (rgba_b (d_px D)) + ((b1 AND 0x3f) - 32 - 8 + (b2 AND 0x0f)))\<rparr> = px"
    using f f2 v by (intro qoi_rgba_t.equality) simp_all
  show ?thesis
    unfolding decode_chunk_def u Let_def e using f
    by (simp add: QOI_OP_RGB_def QOI_OP_RGBA_def QOI_MASK_2_def QOI_OP_INDEX_def
        QOI_OP_DIFF_def QOI_OP_LUMA_def QOI_OP_RUN_def)
qed

section \<open>Iterating the decoder\<close>

definition pixel_at :: "byte list \<Rightarrow> nat \<Rightarrow> nat \<Rightarrow> qoi_rgba_t" where
  "pixel_at pixels chans k = read_px pixels chans (k * chans) start_px"

definition idx_rel :: "qoi_rgba_t list \<Rightarrow> qoi_rgba_t list \<Rightarrow> bool" where
  "idx_rel ie ix \<longleftrightarrow> length ie = 64 \<and> length ix = 64 \<and>
     (\<forall>i<64. ie ! i = ix ! i \<or> QOI_COLOR_HASH (ie ! i) mod 64 \<noteq> i)"

lemma qoi_decode_px_run:
  "d_run D > 0 \<Longrightarrow> qoi_decode_px bs cl ch D =
     D\<lparr>d_run := d_run D - 1, d_pixels := d_pixels D @ px_bytes ch (d_px D)\<rparr>"
  by (simp add: qoi_decode_px_def Let_def)

lemma qoi_decode_px_chunk:
  "d_run D = 0 \<Longrightarrow> int (d_p D) < cl \<Longrightarrow> qoi_decode_px bs cl ch D =
     (decode_chunk bs D)\<lparr>d_pixels := d_pixels (decode_chunk bs D) @ px_bytes ch (d_px (decode_chunk bs D))\<rparr>"
  by (simp add: qoi_decode_px_def Let_def)

lemma qoi_decode_px_exhausted:
  "d_run D = 0 \<Longrightarrow> \<not> int (d_p D) < cl \<Longrightarrow> qoi_decode_px bs cl ch D =
     D\<lparr>d_pixels := d_pixels D @ px_bytes ch (d_px D)\<rparr>"
  by (simp add: qoi_decode_px_def Let_def)

lemma decode_replay:
  "d_run D = int m \<Longrightarrow> (qoi_decode_px bs cl ch ^^ m) D =
     D\<lparr>d_run := 0, d_pixels := d_pixels D @ concat (replicate m (px_bytes ch (d_px D)))\<rparr>"
proof (induction m arbitrary: D)
  case 0
  then show ?case by simp
next
  case (Suc m)
  have s: "qoi_decode_px bs cl ch D =
      D\<lparr>d_run := int m, d_pixels := d_pixels D @ px_bytes ch (d_px D)\<rparr>"
    using Suc.prems by (simp add: qoi_decode_px_run)
  show ?case
    unfolding funpow_Suc_right o_apply s
    by (subst Suc.IH) simp_all
qed

lemma decode_run_chunk:
  assumes "d_run D = 0" "int (d_p D) < cl"
    and "bs ! d_p D = word_of_int (QOI_OP_RUN OR (int m - 1))" "1 \<le> m" "m \<le> 62"
  shows "(qoi_decode_px bs cl ch ^^ m) D =
     D\<lparr>d_p := d_p D + 1,
       d_index := (d_index D)[QOI_COLOR_HASH (d_px D) mod 64 := d_px D],
       d_pixels := d_pixels D @ concat (replicate m (px_bytes ch (d_px D)))\<rparr>"
proof -
  obtain m' where m: "m = Suc m'" using assms(4) by (cases m) auto
  have s: "qoi_decode_px bs cl ch D =
      D\<lparr>d_p := d_p D + 1, d_run := int m',
             d_index := (d_index D)[QOI_COLOR_HASH (d_px D) mod 64 := d_px D],
             d_pixels := d_pixels D @ px_bytes ch (d_px D)\<rparr>"
    using assms(1,2) decode_chunk_run[OF assms(3,4,5)]
    by (simp add: qoi_decode_px_chunk m)
  show ?thesis
    unfolding m funpow_Suc_right o_apply s
    by (subst decode_replay[where m=m']) (simp_all add: assms(1))
qed

section \<open>Encoder and decoder in step\<close>

definition run_byte :: "nat \<Rightarrow> byte" where
  "run_byte r = word_of_int (QOI_OP_RUN OR (int r - 1))"

definition dec_at :: "byte list \<Rightarrow> nat \<Rightarrow> nat \<Rightarrow> dec_state" where
  "dec_at bs chans m = (qoi_decode_px bs (int (length bs) - 8) (int chans) ^^ m) (dec_init 14)"

lemma dec_at_Suc: "dec_at bs chans (Suc m) = qoi_decode_px bs (int (length bs) - 8) (int chans) (dec_at bs chans m)"
  by (simp add: dec_at_def)

lemma dec_at_add: "dec_at bs chans (m + a) = (qoi_decode_px bs (int (length bs) - 8) (int chans) ^^ m) (dec_at bs chans a)"
  by (simp add: dec_at_def funpow_add)

definition cache_ok :: "enc_state \<Rightarrow> bool" where
  "cache_ok E \<longleftrightarrow> (let h = QOI_COLOR_HASH (e_px_prev E) mod 64 in
      e_index E ! h = e_px_prev E \<or> QOI_COLOR_HASH (e_index E ! h) mod 64 \<noteq> h)"

definition dec_sync :: "byte list \<Rightarrow> nat \<Rightarrow> nat \<Rightarrow> enc_state \<Rightarrow> byte list \<Rightarrow> bool" where
  "dec_sync P chans k E S \<longleftrightarrow>
     (let D = dec_at (e_bytes E @ S) chans (k - e_run E) in
        d_p D = length (e_bytes E) \<and> d_run D = 0 \<and> d_px D = e_px_prev E \<and>
        idx_rel (e_index E) (d_index D) \<and> d_pixels D = take ((k - e_run E) * chans) P)"

definition sync :: "byte list \<Rightarrow> nat \<Rightarrow> nat \<Rightarrow> enc_state \<Rightarrow> bool" where
  "sync P chans k E \<longleftrightarrow>
     e_run E \<le> k \<and> e_run E \<le> 62 \<and> cache_ok E \<and>
     (chans \<noteq> 4 \<longrightarrow> rgba_a (e_px_prev E) = 255) \<and>
     (\<forall>j. k - e_run E \<le> j \<and> j < k \<longrightarrow> pixel_at P chans j = e_px_prev E) \<and>
     (\<forall>S. 8 \<le> length S \<longrightarrow> dec_sync P chans k E S)"

lemma take_add_nth4: "n + 4 \<le> length P \<Longrightarrow> take (n + 4) P = take n P @ [P ! n, P ! (n + 1), P ! (n + 2), P ! (n + 3)]"
proof -
  assume a: "n + 4 \<le> length P"
  have "take (n + 4) P = take (Suc (Suc (Suc (Suc n)))) P" by (simp add: eval_nat_numeral)
  also have "\<dots> = take n P @ [P ! n, P ! Suc n, P ! Suc (Suc n), P ! Suc (Suc (Suc n))]"
    using a by (simp add: take_Suc_conv_app_nth)
  finally show ?thesis by (simp add: eval_nat_numeral)
qed

lemma take_add_nth3: "n + 3 \<le> length P \<Longrightarrow> take (n + 3) P = take n P @ [P ! n, P ! (n + 1), P ! (n + 2)]"
proof -
  assume a: "n + 3 \<le> length P"
  have "take (n + 3) P = take (Suc (Suc (Suc n))) P" by (simp add: eval_nat_numeral)
  also have "\<dots> = take n P @ [P ! n, P ! Suc n, P ! Suc (Suc n)]"
    using a by (simp add: take_Suc_conv_app_nth)
  finally show ?thesis by (simp add: eval_nat_numeral)
qed

lemma take_pixel:
  assumes "chans = 3 \<or> chans = 4" "(Suc k) * chans \<le> length P"
  shows "take (Suc k * chans) P = take (k * chans) P @ px_bytes (int chans) (pixel_at P chans k)"
  using assms(1)
proof
  assume c: "chans = 3"
  have "take (k * 3 + 3) P = take (k * 3) P @ [P ! (k*3), P ! (k*3 + 1), P ! (k*3 + 2)]"
    using assms(2) c by (intro take_add_nth3) simp
  then show ?thesis by (simp add: c px_bytes_def pixel_at_def read_px_def add.commute)
next
  assume c: "chans = 4"
  have "take (k * 4 + 4) P = take (k * 4) P @ [P ! (k*4), P ! (k*4 + 1), P ! (k*4 + 2), P ! (k*4 + 3)]"
    using assms(2) c by (intro take_add_nth4) simp
  then show ?thesis by (simp add: c px_bytes_def pixel_at_def read_px_def add.commute)
qed

lemma concat_replicate_snoc: "concat (replicate (Suc m) x) = concat (replicate m x) @ x"
  by (induction m) simp_all

lemma take_run:
  assumes "chans = 3 \<or> chans = 4"
  shows "(a + m) * chans \<le> length P \<Longrightarrow> (\<forall>j. a \<le> j \<and> j < a + m \<longrightarrow> pixel_at P chans j = q) \<Longrightarrow>
    take ((a + m) * chans) P = take (a * chans) P @ concat (replicate m (px_bytes (int chans) q))"
proof (induction m)
  case 0
  then show ?case by simp
next
  case (Suc m)
  have le: "(a + m) * chans \<le> length P" using Suc.prems(1) by (simp add: algebra_simps)
  have ih: "take ((a + m) * chans) P = take (a * chans) P @ concat (replicate m (px_bytes (int chans) q))"
    using Suc.IH[OF le] Suc.prems(2) by simp
  have q: "pixel_at P chans (a + m) = q" using Suc.prems(2) by simp
  have "take (Suc (a + m) * chans) P = take ((a + m) * chans) P @ px_bytes (int chans) (pixel_at P chans (a + m))"
    using Suc.prems(1) by (intro take_pixel[OF assms]) simp
  then show ?case
    unfolding ih q concat_replicate_snoc by simp
qed

lemma idx_rel_stamp_dec:
  assumes "idx_rel ie ix" "ie ! h = px \<or> QOI_COLOR_HASH (ie ! h) mod 64 \<noteq> h"
  shows "idx_rel ie (ix[h := px])"
  unfolding idx_rel_def
proof (intro conjI allI impI)
  fix i :: nat assume i: "i < 64"
  show "ie ! i = ix[h := px] ! i \<or> QOI_COLOR_HASH (ie ! i) mod 64 \<noteq> i"
  proof (cases "i = h")
    case True
    then show ?thesis using assms i by (auto simp: idx_rel_def)
  next
    case False
    then show ?thesis using assms(1) i by (simp add: idx_rel_def)
  qed
qed (use assms in \<open>simp_all add: idx_rel_def\<close>)

lemma idx_rel_stamp_both:
  assumes "idx_rel ie ix"
  shows "idx_rel (ie[h := px]) (ix[h := px])"
  unfolding idx_rel_def
proof (intro conjI allI impI)
  fix i :: nat assume i: "i < 64"
  show "ie[h := px] ! i = ix[h := px] ! i \<or> QOI_COLOR_HASH (ie[h := px] ! i) mod 64 \<noteq> i"
  proof (cases "i = h")
    case True
    then show ?thesis using assms i by (simp add: idx_rel_def)
  next
    case False
    then show ?thesis using assms(1) i by (simp add: idx_rel_def)
  qed
qed (use assms in \<open>simp_all add: idx_rel_def\<close>)

lemma idx_rel_hit:
  "idx_rel ie ix \<Longrightarrow> ie ! (QOI_COLOR_HASH px mod 64) = px \<Longrightarrow> ix ! (QOI_COLOR_HASH px mod 64) = px"
  unfolding idx_rel_def by (metis mod_less_divisor zero_less_numeral)

lemma sync_e_px [simp]: "sync P chans k (E\<lparr>e_px := x\<rparr>) = sync P chans k E"
  by (simp add: sync_def dec_sync_def cache_ok_def)

lemma sync_flush:
  assumes s: "sync P chans k E" and r: "0 < e_run E" and c: "chans = 3 \<or> chans = 4"
    and le: "k * chans \<le> length P"
  shows "sync P chans k (E\<lparr>e_bytes := e_bytes E @ [run_byte (e_run E)], e_run := 0\<rparr>)"
proof -
  let ?E' = "E\<lparr>e_bytes := e_bytes E @ [run_byte (e_run E)], e_run := 0\<rparr>"
  let ?r = "e_run E"
  from s have rk: "?r \<le> k" and r62: "?r \<le> 62" and co: "cache_ok E"
    and al: "chans \<noteq> 4 \<longrightarrow> rgba_a (e_px_prev E) = 255"
    and px: "\<forall>j. k - ?r \<le> j \<and> j < k \<longrightarrow> pixel_at P chans j = e_px_prev E"
    and ds: "\<And>S. 8 \<le> length S \<Longrightarrow> dec_sync P chans k E S"
    by (auto simp: sync_def)
  have "dec_sync P chans k ?E' S" if S: "8 \<le> length S" for S
  proof -
    let ?bs = "e_bytes E @ run_byte ?r # S"
    define D where "D = dec_at ?bs chans (k - ?r)"
    have d: "d_p D = length (e_bytes E)" "d_run D = 0" "d_px D = e_px_prev E"
      "idx_rel (e_index E) (d_index D)" "d_pixels D = take ((k - ?r) * chans) P"
      using ds[of "run_byte ?r # S"] S by (simp_all add: dec_sync_def Let_def D_def)
    have k: "k = ?r + (k - ?r)" using rk by simp
    have "dec_at ?bs chans k = (qoi_decode_px ?bs (int (length ?bs) - 8) (int chans) ^^ ?r) D"
      unfolding D_def by (subst k, subst dec_at_add) simp
    also have "\<dots> = D\<lparr>d_p := d_p D + 1,
         d_index := (d_index D)[QOI_COLOR_HASH (d_px D) mod 64 := d_px D],
         d_pixels := d_pixels D @ concat (replicate ?r (px_bytes (int chans) (d_px D)))\<rparr>"
      using d S r r62 by (intro decode_run_chunk) (simp_all add: run_byte_def)
    finally have e: "dec_at ?bs chans k = D\<lparr>d_p := d_p D + 1,
         d_index := (d_index D)[QOI_COLOR_HASH (d_px D) mod 64 := d_px D],
         d_pixels := d_pixels D @ concat (replicate ?r (px_bytes (int chans) (d_px D)))\<rparr>" .
    have t: "take ((k - ?r + ?r) * chans) P =
        take ((k - ?r) * chans) P @ concat (replicate ?r (px_bytes (int chans) (e_px_prev E)))"
      using le rk px by (intro take_run[OF c]) auto
    have i: "idx_rel (e_index E) ((d_index D)[QOI_COLOR_HASH (e_px_prev E) mod 64 := e_px_prev E])"
      using d(4) co by (intro idx_rel_stamp_dec) (auto simp: cache_ok_def Let_def)
    show ?thesis
      using d t i rk by (simp add: dec_sync_def e Let_def)
  qed
  then show ?thesis
    using co al by (auto simp add: sync_def cache_ok_def)
qed

lemma sync_step_generic:
  assumes s: "sync P chans k E" and r: "e_run E = 0" and c: "chans = 3 \<or> chans = 4"
    and le: "Suc k * chans \<le> length P"
    and px: "px = pixel_at P chans k"
    and E': "e_px_prev E' = px" "e_run E' = 0" "e_bytes E' = e_bytes E @ C" "C \<noteq> []"
      "e_index E' = e_index E \<and> e_index E ! (QOI_COLOR_HASH px mod 64) = px \<or>
       e_index E' = (e_index E)[QOI_COLOR_HASH px mod 64 := px]"
    and dc: "\<And>S D. d_p D = length (e_bytes E) \<Longrightarrow> d_px D = e_px_prev E \<Longrightarrow>
        idx_rel (e_index E) (d_index D) \<Longrightarrow>
        decode_chunk (e_bytes E @ C @ S) D =
          D\<lparr>d_p := d_p D + length C, d_px := px,
             d_index := (d_index D)[QOI_COLOR_HASH px mod 64 := px]\<rparr>"
  shows "sync P chans (Suc k) E'"
proof -
  let ?h = "QOI_COLOR_HASH px mod 64"
  from s r have ds: "\<And>S. 8 \<le> length S \<Longrightarrow> dec_sync P chans k E S"
    by (auto simp: sync_def)
  have len: "length (e_index E) = 64"
    using ds[of "replicate 8 0"] by (simp add: dec_sync_def Let_def idx_rel_def)
  have hit: "e_index E' ! ?h = px" using E'(5) len by auto
  have co: "cache_ok E'" using hit E'(1) by (simp add: cache_ok_def)
  have al: "chans \<noteq> 4 \<longrightarrow> rgba_a (e_px_prev E') = 255"
    unfolding E'(1) px by (simp add: pixel_at_def read_px_def start_px_def)
  have "dec_sync P chans (Suc k) E' S" if S: "8 \<le> length S" for S
  proof -
    let ?bs = "e_bytes E @ C @ S"
    define D where "D = dec_at ?bs chans k"
    have d: "d_p D = length (e_bytes E)" "d_run D = 0" "d_px D = e_px_prev E"
      "idx_rel (e_index E) (d_index D)" "d_pixels D = take (k * chans) P"
      using ds[of "C @ S"] S r by (simp_all add: dec_sync_def Let_def D_def)
    have lt: "int (d_p D) < int (length ?bs) - 8" using d(1) S E'(4) by (cases C) auto
    have "qoi_decode_px ?bs (int (length ?bs) - 8) (int chans) D =
        D\<lparr>d_p := d_p D + length C, d_px := px,
          d_index := (d_index D)[?h := px],
          d_pixels := d_pixels D @ px_bytes (int chans) px\<rparr>"
      by (subst qoi_decode_px_chunk[OF d(2) lt]) (simp add: dc[OF d(1,3,4)])
    then have e: "dec_at ?bs chans (Suc k) =
        D\<lparr>d_p := d_p D + length C, d_px := px,
          d_index := (d_index D)[?h := px],
          d_pixels := d_pixels D @ px_bytes (int chans) px\<rparr>"
      unfolding dec_at_Suc D_def[symmetric] .
    have i: "idx_rel (e_index E') ((d_index D)[?h := px])"
      using E'(5)
    proof
      assume "e_index E' = e_index E \<and> e_index E ! ?h = px"
      then show ?thesis using d(4) by (auto intro: idx_rel_stamp_dec)
    next
      assume "e_index E' = (e_index E)[?h := px]"
      then show ?thesis using d(4) by (auto intro: idx_rel_stamp_both)
    qed
    have t: "take (Suc k * chans) P = take (k * chans) P @ px_bytes (int chans) px"
      unfolding px using le by (intro take_pixel[OF c])
    show ?thesis
      using d i t E' by (simp add: dec_sync_def e Let_def)
  qed
  then show ?thesis
    using co al E'(1,2) by (auto simp add: sync_def)
qed

lemma sync_chunk:
  assumes s: "sync P chans k E" and r: "e_run E = 0" and c: "chans = 3 \<or> chans = 4"
    and le: "Suc k * chans \<le> length P"
    and px: "px = pixel_at P chans k"
    and h: "h = QOI_COLOR_HASH px mod 64"
  shows "sync P chans (Suc k)
           ((if e_index E ! h = px then write_8 E (word_of_int (QOI_OP_INDEX OR int h))
             else encode_diff write_8 px (e_px_prev E) (E\<lparr>e_index := (e_index E)[h := px]\<rparr>))
            \<lparr>e_px_prev := px\<rparr>)"
proof (cases "e_index E ! h = px")
  case True
  show ?thesis
    unfolding if_P[OF True]
  proof (rule sync_step_generic[OF s r c le px, where C = "[word_of_int (QOI_OP_INDEX OR int h)]"])
    fix S :: "byte list" and D :: dec_state
    assume d: "d_p D = length (e_bytes E)" "d_px D = e_px_prev E" "idx_rel (e_index E) (d_index D)"
    have hit: "d_index D ! h = px" using idx_rel_hit[OF d(3)] True h by simp
    have "decode_chunk (e_bytes E @ [word_of_int (QOI_OP_INDEX OR int h)] @ S) D =
        D\<lparr>d_p := d_p D + 1, d_px := d_index D ! h,
             d_index := (d_index D)[QOI_COLOR_HASH (d_index D ! h) mod 64 := d_index D ! h]\<rparr>"
      by (rule decode_chunk_index) (simp_all add: d h)
    then show "decode_chunk (e_bytes E @ [word_of_int (QOI_OP_INDEX OR int h)] @ S) D =
        D\<lparr>d_p := d_p D + length [word_of_int (QOI_OP_INDEX OR int h) :: byte], d_px := px,
             d_index := (d_index D)[QOI_COLOR_HASH px mod 64 := px]\<rparr>"
      by (simp add: hit)
  qed (use True h r in \<open>simp_all add: write_8_def\<close>)
next
  case False
  let ?E0 = "E\<lparr>e_index := (e_index E)[h := px]\<rparr>"
  let ?vr = "rgba_r px - rgba_r (e_px_prev E)"
  let ?vg = "rgba_g px - rgba_g (e_px_prev E)"
  let ?vb = "rgba_b px - rgba_b (e_px_prev E)"
  show ?thesis
    unfolding if_not_P[OF False]
  proof (cases "rgba_a px = rgba_a (e_px_prev E)")
    case alpha: False
    let ?C = "[word_of_int QOI_OP_RGBA, rgba_r px, rgba_g px, rgba_b px, rgba_a px]"
    show "sync P chans (Suc k) ((encode_diff write_8 px (e_px_prev E) ?E0)\<lparr>e_px_prev := px\<rparr>)"
    proof (rule sync_step_generic[OF s r c le px, where C = ?C])
      fix S :: "byte list" and D :: dec_state
      assume d: "d_p D = length (e_bytes E)" "d_px D = e_px_prev E" "idx_rel (e_index E) (d_index D)"
      have "decode_chunk (e_bytes E @ ?C @ S) D =
          D\<lparr>d_p := d_p D + 5, d_px := px, d_index := (d_index D)[QOI_COLOR_HASH px mod 64 := px]\<rparr>"
        by (rule decode_chunk_rgba) (simp_all add: d nth_append)
      then show "decode_chunk (e_bytes E @ ?C @ S) D =
          D\<lparr>d_p := d_p D + length ?C, d_px := px, d_index := (d_index D)[QOI_COLOR_HASH px mod 64 := px]\<rparr>"
        by simp
    qed (use alpha h r in \<open>simp_all add: encode_diff_def write_8_def\<close>)
  next
    case alpha: True
    show "sync P chans (Suc k) ((encode_diff write_8 px (e_px_prev E) ?E0)\<lparr>e_px_prev := px\<rparr>)"
    proof (cases "sint ?vr > -3 \<and> sint ?vr < 2 \<and> sint ?vg > -3 \<and> sint ?vg < 2 \<and>
               sint ?vb > -3 \<and> sint ?vb < 2")
      case diff: True
      let ?C = "[word_of_int (QOI_OP_DIFF OR push_bit 4 (sint ?vr + 2) OR
                                      push_bit 2 (sint ?vg + 2) OR (sint ?vb + 2)) :: byte]"
      show ?thesis
      proof (rule sync_step_generic[OF s r c le px, where C = ?C])
        fix S :: "byte list" and D :: dec_state
        assume d: "d_p D = length (e_bytes E)" "d_px D = e_px_prev E" "idx_rel (e_index E) (d_index D)"
        have "decode_chunk (e_bytes E @ ?C @ S) D =
            D\<lparr>d_p := d_p D + 1, d_px := px, d_index := (d_index D)[QOI_COLOR_HASH px mod 64 := px]\<rparr>"
          by (rule decode_chunk_diff[where vr = ?vr and vg = ?vg and vb = ?vb])
             (use diff alpha in \<open>simp_all add: d\<close>)
        then show "decode_chunk (e_bytes E @ ?C @ S) D =
            D\<lparr>d_p := d_p D + length ?C, d_px := px, d_index := (d_index D)[QOI_COLOR_HASH px mod 64 := px]\<rparr>"
          by simp
      qed (use alpha diff h r in \<open>simp_all add: encode_diff_def write_8_def Let_def\<close>)
    next
      case diff: False
      show ?thesis
      proof (cases "sint (?vr - ?vg) > -9 \<and> sint (?vr - ?vg) < 8 \<and> sint ?vg > -33 \<and> sint ?vg < 32 \<and>
                    sint (?vb - ?vg) > -9 \<and> sint (?vb - ?vg) < 8")
        case luma: True
        let ?C = "[word_of_int (QOI_OP_LUMA OR (sint ?vg + 32)),
                   word_of_int (push_bit 4 (sint (?vr - ?vg) + 8) OR (sint (?vb - ?vg) + 8)) :: byte]"
        show ?thesis
        proof (rule sync_step_generic[OF s r c le px, where C = ?C])
          fix S :: "byte list" and D :: dec_state
          assume d: "d_p D = length (e_bytes E)" "d_px D = e_px_prev E" "idx_rel (e_index E) (d_index D)"
          have "decode_chunk (e_bytes E @ ?C @ S) D =
              D\<lparr>d_p := d_p D + 2, d_px := px, d_index := (d_index D)[QOI_COLOR_HASH px mod 64 := px]\<rparr>"
            by (rule decode_chunk_luma[where vr = ?vr and vg = ?vg and vb = ?vb
                  and vg_r = "?vr - ?vg" and vg_b = "?vb - ?vg"])
               (use luma alpha in \<open>simp_all add: d nth_append\<close>)
          then show "decode_chunk (e_bytes E @ ?C @ S) D =
              D\<lparr>d_p := d_p D + length ?C, d_px := px, d_index := (d_index D)[QOI_COLOR_HASH px mod 64 := px]\<rparr>"
            by simp
        qed (use alpha diff luma h r in \<open>simp_all add: encode_diff_def write_8_def Let_def\<close>)
      next
        case luma: False
        let ?C = "[word_of_int QOI_OP_RGB, rgba_r px, rgba_g px, rgba_b px]"
        show ?thesis
        proof (rule sync_step_generic[OF s r c le px, where C = ?C])
          fix S :: "byte list" and D :: dec_state
          assume d: "d_p D = length (e_bytes E)" "d_px D = e_px_prev E" "idx_rel (e_index E) (d_index D)"
          have "decode_chunk (e_bytes E @ ?C @ S) D =
              D\<lparr>d_p := d_p D + 4, d_px := px, d_index := (d_index D)[QOI_COLOR_HASH px mod 64 := px]\<rparr>"
            by (rule decode_chunk_rgb) (use alpha in \<open>simp_all add: d nth_append\<close>)
          then show "decode_chunk (e_bytes E @ ?C @ S) D =
              D\<lparr>d_p := d_p D + length ?C, d_px := px, d_index := (d_index D)[QOI_COLOR_HASH px mod 64 := px]\<rparr>"
            by simp
        qed (use alpha diff luma h r in \<open>simp_all add: encode_diff_def write_8_def Let_def\<close>)
      qed
    qed
  qed
qed

lemma sync_run_extend:
  assumes s: "sync P chans k E" and p: "pixel_at P chans k = e_px_prev E" and r: "e_run E < 62"
  shows "sync P chans (Suc k) (E\<lparr>e_run := Suc (e_run E)\<rparr>)"
proof -
  from s have rk: "e_run E \<le> k" by (simp add: sync_def)
  then have d: "Suc k - Suc (e_run E) = k - e_run E" by simp
  have "pixel_at P chans j = e_px_prev E" if "k - e_run E \<le> j" "j < Suc k" for j
  proof (cases "j = k")
    case True
    then show ?thesis using p by simp
  next
    case False
    then show ?thesis using s that by (simp add: sync_def)
  qed
  then show ?thesis
    using s r rk by (simp add: sync_def dec_sync_def cache_ok_def d)
qed

lemma read_px_pixel_at:
  assumes "chans = 3 \<or> chans = 4" "chans \<noteq> 4 \<longrightarrow> rgba_a px0 = 255"
  shows "read_px P chans (k * chans) px0 = pixel_at P chans k"
  using assms by (auto simp: pixel_at_def read_px_def start_px_def intro: qoi_rgba_t.equality)

lemma sync_encode_px:
  fixes px_end :: nat
  assumes s: "sync P chans k E" and e: "e_px E = e_px_prev E" and r: "e_run E < 62"
    and c: "chans = 3 \<or> chans = 4" and le: "Suc k * chans \<le> length P"
  defines "E' \<equiv> qoi_encode_px write_8 P chans px_end (k * chans) E"
  shows "sync P chans (Suc k) E' \<and> e_px E' = e_px_prev E' \<and> e_run E' < 62 \<and>
         (k * chans = px_end \<longrightarrow> e_run E' = 0)"
proof -
  define px where "px = pixel_at P chans k"
  have al: "chans \<noteq> 4 \<longrightarrow> rgba_a (e_px E) = 255" using s e by (simp add: sync_def)
  have rd: "read_px P chans (k * chans) (e_px E) = px"
    unfolding px_def by (rule read_px_pixel_at[OF c al])
  have rd2: "read_px P chans (k * chans) (e_px_prev E) = px"
    using rd e by simp
  show ?thesis
  proof (cases "px = e_px_prev E")
    case True
    let ?E1 = "E\<lparr>e_run := Suc (e_run E)\<rparr>"
    have s1: "sync P chans (Suc k) ?E1"
      using s True r by (intro sync_run_extend) (simp_all add: px_def)
    show ?thesis
    proof (cases "Suc (e_run E) = 62 \<or> k * chans = px_end")
      case fl: True
      have "sync P chans (Suc k) (?E1\<lparr>e_bytes := e_bytes ?E1 @ [run_byte (e_run ?E1)], e_run := 0\<rparr>)"
        using s1 c le by (intro sync_flush) simp_all
      moreover have "E' = ?E1\<lparr>e_bytes := e_bytes ?E1 @ [run_byte (e_run ?E1)], e_run := 0\<rparr>"
        using True fl e
        by (simp add: E'_def qoi_encode_px_def rd rd2 Let_def write_8_def run_byte_def)
      ultimately show ?thesis using e by simp
    next
      case fl: False
      have "E' = ?E1"
        using True fl e by (simp add: E'_def qoi_encode_px_def rd rd2 Let_def)
      then show ?thesis using s1 e fl r by auto
    qed
  next
    case False
    define E1 where "E1 = (if e_run E > 0
        then E\<lparr>e_bytes := e_bytes E @ [run_byte (e_run E)], e_run := 0\<rparr> else E)"
    have le': "k * chans \<le> length P" using le by simp
    have s1: "sync P chans k E1"
      unfolding E1_def using s sync_flush[OF s _ c le'] by simp
    have r1: "e_run E1 = 0" and p1: "e_px_prev E1 = e_px_prev E"
      by (simp_all add: E1_def)
    let ?h = "QOI_COLOR_HASH px mod 64"
    have "sync P chans (Suc k)
           ((if e_index E1 ! ?h = px then write_8 E1 (word_of_int (QOI_OP_INDEX OR int ?h))
             else encode_diff write_8 px (e_px_prev E1) (E1\<lparr>e_index := (e_index E1)[?h := px]\<rparr>))
            \<lparr>e_px_prev := px\<rparr>)" (is "sync _ _ _ ?E2")
      by (rule sync_chunk[OF s1 r1 c le px_def refl])
    then have s2: "sync P chans (Suc k) (?E2\<lparr>e_px := px\<rparr>)" by simp
    have run2: "e_run ?E2 = 0"
      using r1 by (simp add: write_8_def encode_diff_def Let_def)
    have "E' = ?E2\<lparr>e_px := px\<rparr>"
      using False
      by (simp add: E'_def qoi_encode_px_def rd rd2 Let_def E1_def write_8_def run_byte_def
          encode_diff_def)
    then show ?thesis using s2 run2 by simp
  qed
qed

section \<open>The loops as iterations\<close>

primrec enc_at ::
  "(enc_state \<Rightarrow> byte \<Rightarrow> enc_state) \<Rightarrow> byte list \<Rightarrow> nat \<Rightarrow> nat \<Rightarrow> nat \<Rightarrow> enc_state \<Rightarrow> enc_state" where
  "enc_at wr P chans px_end 0 st = st"
| "enc_at wr P chans px_end (Suc k) st =
     qoi_encode_px wr P chans px_end (k * chans) (enc_at wr P chans px_end k st)"

lemma qoi_encode_loop_enc_at:
  assumes "0 < chans"
  shows "k \<le> n \<Longrightarrow> qoi_encode_loop wr P chans (n * chans) px_end (k * chans) (enc_at wr P chans px_end k st) =
     enc_at wr P chans px_end n st"
proof (induction "n - k" arbitrary: k)
  case 0
  then have "k = n" by simp
  then show ?case by (simp add: qoi_encode_loop.simps)
next
  case (Suc d)
  then have lt: "k < n" and d: "d = n - Suc k" and le: "Suc k \<le> n" by simp_all
  have "qoi_encode_loop wr P chans (n * chans) px_end (k * chans) (enc_at wr P chans px_end k st) =
        qoi_encode_loop wr P chans (n * chans) px_end (Suc k * chans) (enc_at wr P chans px_end (Suc k) st)"
    using lt assms by (subst qoi_encode_loop.simps) (simp add: add.commute)
  then show ?case using Suc.hyps(1)[OF d le] by simp
qed

lemma qoi_decode_loop_funpow:
  assumes "0 < chans"
  shows "k \<le> n \<Longrightarrow> qoi_decode_loop bs cl (int chans) (int (n * chans)) (int (k * chans)) st =
     (qoi_decode_px bs cl (int chans) ^^ (n - k)) st"
proof (induction "n - k" arbitrary: k st)
  case 0
  then have "k = n" by simp
  then show ?case by (simp add: qoi_decode_loop.simps)
next
  case (Suc d)
  then have lt: "k < n" and d: "d = n - Suc k" and le: "Suc k \<le> n" by simp_all
  have nk: "n - k = Suc (n - Suc k)" using lt by simp
  have "qoi_decode_loop bs cl (int chans) (int (n * chans)) (int (k * chans)) st =
        qoi_decode_loop bs cl (int chans) (int (n * chans)) (int (Suc k * chans))
          (qoi_decode_px bs cl (int chans) st)"
    using lt assms by (subst qoi_decode_loop.simps) (simp add: add.commute)
  then show ?case
    using Suc.hyps(1)[OF d le] unfolding nk funpow_Suc_right by simp
qed

lemma encode_diff_shape:
  "\<exists>C. encode_diff write_8 px prev st = st\<lparr>e_bytes := e_bytes st @ C\<rparr> \<and> 1 \<le> length C \<and>
       length C \<le> (if rgba_a px = rgba_a prev then 4 else 5)"
proof (cases "rgba_a px = rgba_a prev")
  case False
  then show ?thesis
    by (intro exI[of _ "[word_of_int QOI_OP_RGBA, rgba_r px, rgba_g px, rgba_b px, rgba_a px]"])
       (simp add: encode_diff_def write_8_def)
next
  case True
  let ?vr = "rgba_r px - rgba_r prev"
  let ?vg = "rgba_g px - rgba_g prev"
  let ?vb = "rgba_b px - rgba_b prev"
  show ?thesis
  proof (cases "sint ?vr > -3 \<and> sint ?vr < 2 \<and> sint ?vg > -3 \<and> sint ?vg < 2 \<and>
               sint ?vb > -3 \<and> sint ?vb < 2")
    case diff: True
    then show ?thesis using True
      by (intro exI[of _ "[word_of_int (QOI_OP_DIFF OR push_bit 4 (sint ?vr + 2) OR
                                      push_bit 2 (sint ?vg + 2) OR (sint ?vb + 2))]"])
         (simp add: encode_diff_def write_8_def Let_def)
  next
    case diff: False
    show ?thesis
    proof (cases "sint (?vr - ?vg) > -9 \<and> sint (?vr - ?vg) < 8 \<and> sint ?vg > -33 \<and> sint ?vg < 32 \<and>
                    sint (?vb - ?vg) > -9 \<and> sint (?vb - ?vg) < 8")
      case luma: True
      then show ?thesis using True diff
        by (intro exI[of _ "[word_of_int (QOI_OP_LUMA OR (sint ?vg + 32)),
                   word_of_int (push_bit 4 (sint (?vr - ?vg) + 8) OR (sint (?vb - ?vg) + 8))]"])
           (simp add: encode_diff_def write_8_def Let_def)
    next
      case luma: False
      then show ?thesis using True diff
        by (intro exI[of _ "[word_of_int QOI_OP_RGB, rgba_r px, rgba_g px, rgba_b px]"])
           (simp add: encode_diff_def write_8_def Let_def)
    qed
  qed
qed

lemma encode_diff_fields [simp]:
  "e_px (encode_diff write_8 px prev st) = e_px st"
  "e_px_prev (encode_diff write_8 px prev st) = e_px_prev st"
  "e_run (encode_diff write_8 px prev st) = e_run st"
  "e_index (encode_diff write_8 px prev st) = e_index st"
  "e_histo (encode_diff write_8 px prev st) = e_histo st"
  using encode_diff_shape[of px prev st] by auto

lemma write_8_fields [simp]:
  "e_px (write_8 st v) = e_px st"
  "e_px_prev (write_8 st v) = e_px_prev st"
  "e_run (write_8 st v) = e_run st"
  "e_index (write_8 st v) = e_index st"
  "e_histo (write_8 st v) = e_histo st"
  "e_bytes (write_8 st v) = e_bytes st @ [v]"
  by (simp_all add: write_8_def)

lemma encode_px_bytes:
  fixes P :: "byte list" and px_end pos :: nat
  assumes c: "chans = 3 \<or> chans = 4" and e: "e_px E = e_px_prev E"
  defines "E' \<equiv> qoi_encode_px write_8 P chans px_end pos E"
  shows "\<exists>C. e_bytes E' = e_bytes E @ C \<and>
             length C + (if e_run E' > 0 then 1 else 0) \<le> (if e_run E > 0 then 1 else 0) + chans + 1"
    and "e_px E' = e_px_prev E'"
proof -
  define px where "px = read_px P chans pos (e_px E)"
  have a: "chans \<noteq> 4 \<Longrightarrow> rgba_a px = rgba_a (e_px_prev E)"
    using e by (simp add: read_px_def px_def)
  show "e_px E' = e_px_prev E'"
    unfolding E'_def qoi_encode_px_def Let_def by simp
  show "\<exists>C. e_bytes E' = e_bytes E @ C \<and>
             length C + (if e_run E' > 0 then 1 else 0) \<le> (if e_run E > 0 then 1 else 0) + chans + 1"
  proof (cases "px = e_px_prev E")
    case True
    then show ?thesis
      unfolding E'_def qoi_encode_px_def Let_def px_def[symmetric] write_8_def
      by auto
  next
    case False
    define E1 where "E1 = (if e_run E > 0
        then E\<lparr>e_px := px, e_bytes := e_bytes E @ [word_of_int (QOI_OP_RUN OR (int (e_run E) - 1))], e_run := 0\<rparr>
        else E\<lparr>e_px := px\<rparr>)"
    let ?h = "QOI_COLOR_HASH px mod 64"
    have E': "E' = (if e_index E1 ! ?h = px then write_8 E1 (word_of_int (QOI_OP_INDEX OR int ?h))
             else encode_diff write_8 px (e_px_prev E1) (E1\<lparr>e_index := (e_index E1)[?h := px]\<rparr>))
            \<lparr>e_px_prev := px\<rparr>"
      using False
      unfolding E'_def qoi_encode_px_def Let_def px_def[symmetric] E1_def
      by (simp add: write_8_def)
    have r1: "e_run E1 = 0" and p1: "e_px_prev E1 = e_px_prev E"
      and b1: "\<exists>C1. e_bytes E1 = e_bytes E @ C1 \<and> length C1 = (if e_run E > 0 then 1 else 0)"
      by (simp_all add: E1_def)
    then obtain C1 where C1: "e_bytes E1 = e_bytes E @ C1" "length C1 = (if e_run E > 0 then 1 else 0)"
      by blast
    show ?thesis
    proof (cases "e_index E1 ! ?h = px")
      case True
      then show ?thesis
        using C1 r1 c unfolding E'
        by (intro exI[of _ "C1 @ [word_of_int (QOI_OP_INDEX OR int ?h)]"]) (auto simp: write_8_def)
    next
      case False
      obtain C where C: "encode_diff write_8 px (e_px_prev E1) (E1\<lparr>e_index := (e_index E1)[?h := px]\<rparr>) =
          (E1\<lparr>e_index := (e_index E1)[?h := px]\<rparr>)\<lparr>e_bytes := e_bytes (E1\<lparr>e_index := (e_index E1)[?h := px]\<rparr>) @ C\<rparr>"
        "length C \<le> (if rgba_a px = rgba_a (e_px_prev E1) then 4 else 5)"
        using encode_diff_shape by blast
      have "length C \<le> chans + 1" using C(2) a c p1 by (auto split: if_splits)
      then show ?thesis
        using C1 r1 False unfolding E' C(1)
        by (intro exI[of _ "C1 @ C"]) auto
    qed
  qed
qed

section \<open>Header and descriptor arithmetic\<close>

lemma masks: "(0xff000000 :: u32) = push_bit 24 (mask 8)" "(0x00ff0000 :: u32) = push_bit 16 (mask 8)"
  "(0x0000ff00 :: u32) = push_bit 8 (mask 8)" "(0x000000ff :: u32) = mask 8"
  by (simp_all add: mask_eq_exp_minus_1)

lemma read32_write32_word:
  fixes v :: u32
  shows "push_bit 24 (ucast (ucast (drop_bit 24 (0xff000000 AND v)) :: byte)) OR
         push_bit 16 (ucast (ucast (drop_bit 16 (0x00ff0000 AND v)) :: byte)) OR
         push_bit 8 (ucast (ucast (drop_bit 8 (0x0000ff00 AND v)) :: byte)) OR
         ucast (ucast (0x000000ff AND v) :: byte) = v"
  unfolding masks
proof (rule bit_word_eqI)
  fix n :: nat assume "n < LENGTH(32)"
  then have n: "n < 32" by simp
  consider "n < 8" | "8 \<le> n \<and> n < 16" | "16 \<le> n \<and> n < 24" | "24 \<le> n" by linarith
  then show "bit (push_bit 24 (ucast (ucast (drop_bit 24 (push_bit 24 (mask 8) AND v)) :: byte)) OR
         push_bit 16 (ucast (ucast (drop_bit 16 (push_bit 16 (mask 8) AND v)) :: byte)) OR
         push_bit 8 (ucast (ucast (drop_bit 8 (push_bit 8 (mask 8) AND v)) :: byte)) OR
         (ucast (ucast (mask 8 AND v) :: byte) :: u32)) n = bit v n"
    using n by cases (auto simp: bit_simps)
qed

lemma qoi_read_32_write_32:
  "qoi_read_32 (qoi_write_32 xs v @ ys) (length xs) = v"
  using read32_write32_word[of v]
  by (simp add: qoi_read_32_def qoi_write_32_def Let_def nth_append)

lemma desc_valid_facts:
  assumes "\<not> desc_invalid d"
  shows "0 < unat (width d)" "0 < unat (height d)"
    "unat (channels d) = 3 \<or> unat (channels d) = 4"
    "colorspace d \<le> 1"
    "unat (width d) * unat (height d) < 400000000"
proof -
  from assms have w: "width d \<noteq> 0" and h: "height d \<noteq> 0"
    and c: "\<not> channels d < 3" "\<not> channels d > 4" and cs: "\<not> colorspace d > 1"
    and m: "height d < QOI_PIXELS_MAX div width d"
    by (auto simp: desc_invalid_def)
  show w0: "0 < unat (width d)" using w by (simp add: unat_gt_0)
  show "0 < unat (height d)" using h by (simp add: unat_gt_0)
  show "unat (channels d) = 3 \<or> unat (channels d) = 4"
    using c by (simp add: word_less_nat_alt) arith
  show "colorspace d \<le> 1" using cs by simp
  have "unat (height d) < 400000000 div unat (width d)"
    using m by (simp add: word_less_nat_alt unat_div QOI_PIXELS_MAX_def)
  then have "Suc (unat (height d)) \<le> 400000000 div unat (width d)" by simp
  then have "Suc (unat (height d)) * unat (width d) \<le> 400000000"
    using w0 by (simp add: less_eq_div_iff_mult_less_eq)
  then show "unat (width d) * unat (height d) < 400000000"
    using w0 by (simp add: algebra_simps)
qed

lemma desc_valid_px_len:
  assumes "\<not> desc_invalid d"
  shows "unat (width d * height d * ucast (channels d)) =
           unat (width d) * unat (height d) * unat (channels d)"
    and "max_size d = unat (width d) * unat (height d) * (unat (channels d) + 1) + 22"
proof -
  note f = desc_valid_facts[OF assms]
  define n where "n = unat (width d) * unat (height d)"
  have n: "n < 400000000" using f(5) by (simp add: n_def)
  have wh: "unat (width d * height d) = n"
    unfolding n_def using f(5) by (subst unat_mult_lem[symmetric]) simp
  have uc: "unat (ucast (channels d) :: u32) = unat (channels d)"
    using unsigned_less[of "channels d", where ?'a=nat]
    by (simp add: unsigned_ucast_eq take_bit_nat_eq_self)
  have b: "n * unat (channels d) < 2000000000"
    using f(3) n by auto
  have "unat (width d * height d * ucast (channels d)) = n * unat (channels d)"
    using b unfolding wh[symmetric] uc[symmetric]
    by (subst unat_mult_lem[THEN iffD1]) simp_all
  then show "unat (width d * height d * ucast (channels d)) =
           unat (width d) * unat (height d) * unat (channels d)"
    by (simp add: n_def)
  have uc1: "unat (ucast (channels d) + 1 :: u32) = unat (channels d) + 1"
    using f(3) by (subst unat_add_lem[THEN iffD1]) (auto simp: uc)
  have b1: "n * (unat (channels d) + 1) < 2000000000"
    using f(3) n by auto
  have m: "unat (width d * height d * (ucast (channels d) + 1)) = n * (unat (channels d) + 1)"
    using b1 unfolding uc1[symmetric] wh[symmetric]
    by (subst unat_mult_lem[THEN iffD1]) simp_all
  have "unat (width d * height d * (ucast (channels d) + 1) + 14) =
      n * (unat (channels d) + 1) + 14"
    using b1 unfolding m[symmetric]
    by (subst unat_add_lem[THEN iffD1]) simp_all
  then show "max_size d = unat (width d) * unat (height d) * (unat (channels d) + 1) + 22"
    by (simp add: max_size_def qoi_padding_def n_def)
qed

lemma length_enc_init [simp]: "length (e_bytes (enc_init d cs)) = 14"
  by (simp add: enc_init_def qoi_write_32_def)

lemma hash_start_px: "QOI_COLOR_HASH start_px mod 64 = 53"
  by (simp add: QOI_COLOR_HASH_def start_px_def)

lemma hash_zero_px: "QOI_COLOR_HASH zero_px mod 64 = 0"
  by (simp add: QOI_COLOR_HASH_def zero_px_def)

lemma sync_init: "sync P chans 0 (enc_init d cs)"
proof -
  have i: "idx_rel (replicate 64 zero_px) (replicate 64 zero_px)"
    by (simp add: idx_rel_def)
  have c: "cache_ok (enc_init d cs)"
    by (simp add: cache_ok_def enc_init_def hash_start_px hash_zero_px)
  have "dec_sync P chans 0 (enc_init d cs) S" for S
    using i by (simp add: dec_sync_def dec_at_def) (simp add: dec_init_def enc_init_def)
  then show ?thesis
    using c by (simp add: sync_def) (simp add: enc_init_def start_px_def)
qed

lemma enc_at_inv:
  assumes c: "chans = 3 \<or> chans = 4" and len: "length P = n * chans"
    and pe: "px_end = n * chans - chans"
  shows "k \<le> n \<Longrightarrow>
     sync P chans k (enc_at write_8 P chans px_end k (enc_init d cs)) \<and>
     e_px (enc_at write_8 P chans px_end k (enc_init d cs)) =
       e_px_prev (enc_at write_8 P chans px_end k (enc_init d cs)) \<and>
     e_run (enc_at write_8 P chans px_end k (enc_init d cs)) < 62 \<and>
     (k = n \<and> 0 < n \<longrightarrow> e_run (enc_at write_8 P chans px_end k (enc_init d cs)) = 0) \<and>
     (\<exists>C. e_bytes (enc_at write_8 P chans px_end k (enc_init d cs)) = e_bytes (enc_init d cs) @ C)"
proof (induction k)
  case 0
  then show ?case using sync_init[of P chans d cs] by (simp add: enc_init_def)
next
  case (Suc k)
  define E where "E = enc_at write_8 P chans px_end k (enc_init d cs)"
  have ih: "sync P chans k E" "e_px E = e_px_prev E" "e_run E < 62"
    and ihb: "\<exists>C. e_bytes E = e_bytes (enc_init d cs) @ C"
    using Suc by (simp_all add: E_def)
  have le: "Suc k * chans \<le> length P"
    using Suc.prems len by (metis mult_le_mono1)
  note st = sync_encode_px[OF ih c le, of px_end]
  have last: "Suc k = n \<Longrightarrow> k * chans = px_end"
    using pe by auto
  obtain C' where C': "e_bytes (qoi_encode_px write_8 P chans px_end (k * chans) E) = e_bytes E @ C'"
    using encode_px_bytes(1)[OF c ih(2), of P px_end "k * chans"] by blast
  from ihb obtain C where "e_bytes E = e_bytes (enc_init d cs) @ C" by blast
  then have "e_bytes (qoi_encode_px write_8 P chans px_end (k * chans) E) =
      e_bytes (enc_init d cs) @ (C @ C')" using C' by simp
  then have "\<exists>C. e_bytes (qoi_encode_px write_8 P chans px_end (k * chans) E) =
      e_bytes (enc_init d cs) @ C" by blast
  then show ?case
    using st last unfolding enc_at.simps E_def[symmetric] by simp
qed

lemma header_read:
  assumes "bs = e_bytes (enc_init d cs) @ R"
  shows "qoi_read_32 bs 0 = QOI_MAGIC" "read_desc bs = d\<lparr>colorspace := cs\<rparr>"
proof -
  let ?m = "qoi_write_32 [] QOI_MAGIC"
  let ?w = "qoi_write_32 ?m (width d)"
  let ?h = "qoi_write_32 ?w (height d)"
  have bs: "bs = ?h @ [channels d, cs] @ R"
    using assms by (simp add: enc_init_def)
  have l: "length ?m = 4" "length ?w = 8" "length ?h = 12"
    by (simp_all add: qoi_write_32_def)
  have "bs = ?m @ (drop 4 bs)" unfolding bs by (simp add: qoi_write_32_def)
  then have "qoi_read_32 bs 0 = qoi_read_32 (qoi_write_32 [] QOI_MAGIC @ drop 4 bs) (length ([] :: byte list))"
    by simp
  then show "qoi_read_32 bs 0 = QOI_MAGIC"
    by (simp only: qoi_read_32_write_32)
  have "bs = ?w @ (drop 8 bs)" unfolding bs by (simp add: qoi_write_32_def)
  then have "qoi_read_32 bs 4 = qoi_read_32 (qoi_write_32 ?m (width d) @ drop 8 bs) (length ?m)"
    using l by simp
  then have w: "qoi_read_32 bs 4 = width d"
    by (simp only: qoi_read_32_write_32)
  have "qoi_read_32 bs 8 = qoi_read_32 (qoi_write_32 ?w (height d) @ ([channels d, cs] @ R)) (length ?w)"
    unfolding bs using l by simp
  then have h: "qoi_read_32 bs 8 = height d"
    by (simp only: qoi_read_32_write_32)
  have c: "bs ! 12 = channels d" "bs ! 13 = cs"
    unfolding bs using l by (simp_all add: nth_append)
  show "read_desc bs = d\<lparr>colorspace := cs\<rparr>"
    by (simp add: read_desc_def w h c)
qed

section \<open>Decoding a stream with a valid header\<close>

lemma qoi_decode_valid_header:
  assumes sz: "22 \<le> length bs" and mg: "qoi_read_32 bs 0 = QOI_MAGIC"
    and v: "\<not> desc_invalid (read_desc bs)"
    and c: "c' = 3 \<or> c' = 4"
    and ch: "chans = int c' \<or> chans = 0 \<and> c' = unat (channels (read_desc bs))"
    and al: "alloc (unat (width (read_desc bs)) * unat (height (read_desc bs)) * c')"
  shows "qoi_decode alloc (Some bs) True chans =
     Some (d_pixels ((qoi_decode_px bs (int (length bs) - 8) (int c') ^^
                        (unat (width (read_desc bs)) * unat (height (read_desc bs))))
                       (dec_init 14)), read_desc bs)"
proof -
  define d where "d = read_desc bs"
  note f = desc_valid_facts[OF v[folded d_def]]
  define n where "n = unat (width d) * unat (height d)"
  have n: "n < 400000000" using f(5) by (simp add: n_def)
  have sz': "\<not> int (length bs) < int QOI_HEADER_SIZE + int (length qoi_padding)"
    using sz by (simp add: QOI_HEADER_SIZE_def qoi_padding_def)
  have c'': "(if chans = 0 then uint (channels d) else chans) = int c'"
  proof (cases "chans = 0")
    case True
    then have "c' = unat (channels d)" using ch c by (auto simp: d_def)
    then have "int c' = uint (channels d)" by (simp only: uint_nat)
    then show ?thesis using True by simp
  next
    case False
    then show ?thesis using ch by auto
  qed
  have wh: "unat (width d * height d) = n"
    unfolding n_def using f(5) by (subst unat_mult_lem[symmetric]) simp
  define cw :: u32 where "cw = of_nat c'"
  have uc: "unat cw = c'"
    unfolding cw_def using c by (elim disjE) simp_all
  have b: "unat (width d * height d) * unat cw < 2000000000"
    unfolding wh uc using c n by auto
  have "unat (width d * height d * cw) = unat (width d * height d) * unat cw"
    using b by (subst unat_mult_lem[THEN iffD1]) simp_all
  then have plu: "unat (width d * height d * of_nat c') = n * c'"
    by (simp add: wh uc cw_def[symmetric])
  then have pl: "uint (width d * height d * of_nat c') = int (n * c')"
    by (metis uint_nat)
  have c0: "0 < c'" using c by auto
  have lp: "qoi_decode_loop bs (int (length bs) - 8) (int c') (int (n * c')) 0 (dec_init 14) =
      (qoi_decode_px bs (int (length bs) - 8) (int c') ^^ n) (dec_init 14)"
    using qoi_decode_loop_funpow[OF c0, of 0 n bs _ "dec_init 14"] by simp
  have chk: "\<not> (chans \<noteq> 0 \<and> chans \<noteq> 3 \<and> chans \<noteq> 4)" using ch c by auto
  have al': "alloc (n * c')" using al by (simp add: n_def d_def)
  have rd: "read_desc bs = d" by (simp add: d_def)
  have v': "\<not> desc_invalid d" using v by (simp add: d_def)
  have "qoi_decode alloc (Some bs) True chans =
     Some (d_pixels ((qoi_decode_px bs (int (length bs) - 8) (int c') ^^ n) (dec_init 14)), d)"
    unfolding qoi_decode_def using sz' chk v' al'
    by (simp add: Let_def mg rd c'' pl plu qoi_decode_buffer_def lp qoi_padding_def del: of_nat_mult)
  then show ?thesis by (simp add: n_def d_def)
qed


lemma decode_exhausted:
  "d_run D = 0 \<Longrightarrow> \<not> int (d_p D) < cl \<Longrightarrow> (qoi_decode_px bs cl ch ^^ m) D =
     D\<lparr>d_pixels := d_pixels D @ concat (replicate m (px_bytes ch (d_px D)))\<rparr>"
proof (induction m arbitrary: D)
  case 0
  then show ?case by simp
next
  case (Suc m)
  have s: "qoi_decode_px bs cl ch D = D\<lparr>d_pixels := d_pixels D @ px_bytes ch (d_px D)\<rparr>"
    using Suc.prems by (simp add: qoi_decode_px_exhausted)
  show ?case
    unfolding funpow_Suc_right o_apply s
    using Suc.prems by (subst Suc.IH) simp_all
qed


section \<open>Round trip\<close>

lemma encode_pixels_enc_at:
  assumes "\<not> desc_invalid d"
  shows "encode_pixels wr P d cs =
     enc_at wr P (unat (channels d))
       (unat (width d) * unat (height d) * unat (channels d) - unat (channels d))
       (unat (width d) * unat (height d)) (enc_init d cs)"
proof -
  note f = desc_valid_facts[OF assms]
  have c: "0 < unat (channels d)" using f(3) by auto
  show ?thesis
    unfolding encode_pixels_def Let_def desc_valid_px_len(1)[OF assms]
    using qoi_encode_loop_enc_at[OF c, of 0 "unat (width d) * unat (height d)" wr P _ "enc_init d cs"]
    by simp
qed


lemma qoi_encode_Some:
  assumes "\<not> desc_invalid d" "alloc (max_size d)"
  shows "qoi_encode alloc (Some P) (Some d) True =
     Some (e_bytes (encode_pixels write_8 P d (colorspace d)) @ qoi_padding,
           length (e_bytes (encode_pixels write_8 P d (colorspace d))) + 8)"
  using assms by (simp add: qoi_encode_def Let_def qoi_padding_def)


lemma encoded_sync:
  assumes v: "\<not> desc_invalid d"
    and len: "length P = unat (width d) * unat (height d) * unat (channels d)"
  defines "E \<equiv> encode_pixels write_8 P d (colorspace d)"
  shows "sync P (unat (channels d)) (unat (width d) * unat (height d)) E" "e_run E = 0"
    "\<exists>C. e_bytes E = e_bytes (enc_init d (colorspace d)) @ C"
proof -
  note f = desc_valid_facts[OF v]
  define n where "n = unat (width d) * unat (height d)"
  define ch where "ch = unat (channels d)"
  have c: "ch = 3 \<or> ch = 4" using f(3) by (simp add: ch_def)
  have n0: "0 < n" using f(1,2) by (simp add: n_def)
  have E: "E = enc_at write_8 P ch (n * ch - ch) n (enc_init d (colorspace d))"
    unfolding E_def n_def ch_def by (rule encode_pixels_enc_at[OF v])
  have len': "length P = n * ch" using len by (simp add: n_def ch_def)
  have inv: "sync P ch n E" "e_run E = 0" "\<exists>C. e_bytes E = e_bytes (enc_init d (colorspace d)) @ C"
    using enc_at_inv[OF c len' refl, of n d "colorspace d"] n0 unfolding E by simp_all
  show "sync P (unat (channels d)) (unat (width d) * unat (height d)) E" "e_run E = 0"
    "\<exists>C. e_bytes E = e_bytes (enc_init d (colorspace d)) @ C"
    using inv by (simp_all add: n_def ch_def)
qed


lemma qoi_decode_encoded_header:
  assumes v: "\<not> desc_invalid d" and bs: "bs = e_bytes (enc_init d (colorspace d)) @ R"
    and R: "8 \<le> length R"
    and c: "c' = 3 \<or> c' = 4" and ch: "chans = int c' \<or> chans = 0 \<and> c' = unat (channels d)"
    and al: "alloc (unat (width d) * unat (height d) * c')"
  shows "qoi_decode alloc (Some bs) True chans =
     Some (d_pixels ((qoi_decode_px bs (int (length bs) - 8) (int c') ^^ (unat (width d) * unat (height d)))
                       (dec_init 14)), d)"
proof -
  have hd: "qoi_read_32 bs 0 = QOI_MAGIC" "read_desc bs = d"
    using header_read[OF bs] by simp_all
  have sz: "22 \<le> length bs" using bs R by simp
  show ?thesis
    using qoi_decode_valid_header[where alloc = alloc and c' = c' and chans = chans and bs = bs, OF sz hd(1)]
      v c ch al unfolding hd(2) by simp
qed


lemma decode_of_encoded:
  assumes v: "\<not> desc_invalid d"
    and len: "length P = unat (width d) * unat (height d) * unat (channels d)"
    and t: "length t = 8" and al: "alloc (length P)"
  shows "qoi_decode alloc (Some (e_bytes (encode_pixels write_8 P d (colorspace d)) @ t)) True
           (uint (channels d)) = Some (P, d)"
proof -
  note f = desc_valid_facts[OF v]
  define n where "n = unat (width d) * unat (height d)"
  define ch where "ch = unat (channels d)"
  define E where "E = encode_pixels write_8 P d (colorspace d)"
  have c: "ch = 3 \<or> ch = 4" using f(3) by (simp add: ch_def)
  note s = encoded_sync[OF v len, folded E_def n_def ch_def]
  from s(3) obtain C where C: "e_bytes E = e_bytes (enc_init d (colorspace d)) @ C" by blast
  have len': "length P = n * ch" using len by (simp add: n_def ch_def)
  have ds: "dec_sync P ch n E t" using s(1) t by (simp add: sync_def)
  then have px: "d_pixels (dec_at (e_bytes E @ t) ch n) = P"
    using s(2) len' by (simp add: dec_sync_def Let_def)
  have bs: "e_bytes E @ t = e_bytes (enc_init d (colorspace d)) @ (C @ t)"
    using C by simp
  have R: "8 \<le> length (C @ t)" using t by simp
  have al': "alloc (unat (width d) * unat (height d) * ch)"
    using al len by (simp add: ch_def)
  have "qoi_decode alloc (Some (e_bytes E @ t)) True (int ch) =
     Some (d_pixels ((qoi_decode_px (e_bytes E @ t) (int (length (e_bytes E @ t)) - 8) (int ch) ^^ n)
                       (dec_init 14)), d)"
    unfolding n_def
    by (rule qoi_decode_encoded_header[where alloc = alloc and c' = ch and chans = "int ch",
          OF v bs R c disjI1[OF refl] al'])
  moreover have "uint (channels d) = int ch" unfolding ch_def by (rule uint_nat)
  ultimately show ?thesis
    using px unfolding E_def[symmetric] by (simp add: dec_at_def)
qed

text \<open>
  Claim C1. For a valid descriptor \<open>D\<close> and a pixel buffer \<open>P\<close> of
  \<open>width * height * channels\<close> bytes, \<^verbatim>\<open>qoi_encode\<close> returns a stream (when its allocation
  succeeds), and \<^verbatim>\<open>qoi_decode\<close> of that stream, asked for \<open>D\<close>'s channel count, returns
  exactly \<open>P\<close> and fills the descriptor with \<open>D\<close>.
\<close>

theorem qoi_roundtrip:
  assumes "\<not> desc_invalid D"
    and "length P = unat (width D) * unat (height D) * unat (channels D)"
    and "alloc_e (max_size D)" and "alloc_d (length P)"
  shows "\<exists>S. qoi_encode alloc_e (Some P) (Some D) True = Some (S, length S) \<and>
             qoi_decode alloc_d (Some S) True (uint (channels D)) = Some (P, D)"
proof -
  have "qoi_decode alloc_d (Some (e_bytes (encode_pixels write_8 P D (colorspace D)) @ qoi_padding))
          True (uint (channels D)) = Some (P, D)"
    using decode_of_encoded[where t = qoi_padding and alloc = alloc_d, OF assms(1,2)] assms(4)
    by (simp add: qoi_padding_def)
  then show ?thesis
    using qoi_encode_Some[where alloc = alloc_e, OF assms(1,3), of P] by (simp add: qoi_padding_def)
qed

theorem qoi_roundtrip_witness:
  "\<exists>S. qoi_encode (\<lambda>_. True) (Some [10, 20, 30, 40, 10, 21, 30, 40])
           (Some \<lparr>width = 2, height = 1, channels = 4, colorspace = 0\<rparr>) True = Some (S, length S) \<and>
       qoi_decode (\<lambda>_. True) (Some S) True 4 =
         Some ([10, 20, 30, 40, 10, 21, 30, 40], \<lparr>width = 2, height = 1, channels = 4, colorspace = 0\<rparr>)"
proof -
  have v: "\<not> desc_invalid \<lparr>width = 2, height = 1, channels = 4, colorspace = 0\<rparr>"
    by code_simp
  show ?thesis
    using qoi_roundtrip[OF v, of "[10, 20, 30, 40, 10, 21, 30, 40]" "\<lambda>_. True" "\<lambda>_. True"]
    by simp
qed


section \<open>The decoder does not look at the end marker\<close>

lemma decode_chunk_pixels:
  "decode_chunk bs (D\<lparr>d_pixels := x\<rparr>) = (decode_chunk bs D)\<lparr>d_pixels := x\<rparr>"
  by (simp add: decode_chunk_def Let_def)

lemma qoi_decode_px_pixels:
  "qoi_decode_px bs cl c2 (D\<lparr>d_pixels := x\<rparr>) =
     (qoi_decode_px bs cl c1 D)\<lparr>d_pixels := x @ px_bytes c2 (d_px (qoi_decode_px bs cl c1 D))\<rparr>"
  by (simp add: qoi_decode_px_def Let_def decode_chunk_pixels)

lemma decode_funpow_pixels:
  "\<exists>y. (qoi_decode_px bs cl c2 ^^ m) (D\<lparr>d_pixels := x\<rparr>) =
        ((qoi_decode_px bs cl c1 ^^ m) D)\<lparr>d_pixels := y\<rparr>"
proof (induction m arbitrary: D x)
  case 0
  show ?case by auto
next
  case (Suc m)
  show ?case
    unfolding funpow_Suc_right o_apply
    by (subst qoi_decode_px_pixels[where ?c1.0 = c1]) (rule Suc.IH)
qed

lemma decode_funpow_d_p:
  "d_p ((qoi_decode_px bs cl c2 ^^ m) D) = d_p ((qoi_decode_px bs cl c1 ^^ m) D)"
proof -
  obtain y where "(qoi_decode_px bs cl c2 ^^ m) (D\<lparr>d_pixels := d_pixels D\<rparr>) =
        ((qoi_decode_px bs cl c1 ^^ m) D)\<lparr>d_pixels := y\<rparr>"
    using decode_funpow_pixels by blast
  then show ?thesis by simp
qed

lemma decode_chunk_d_p: "d_p D < d_p (decode_chunk bs D)"
  by (simp add: decode_chunk_def Let_def)

lemma qoi_decode_px_d_p: "d_p D \<le> d_p (qoi_decode_px bs cl ch D)"
  using decode_chunk_d_p[of D bs] by (simp add: qoi_decode_px_def Let_def)

lemma decode_funpow_d_p_mono: "d_p D \<le> d_p ((qoi_decode_px bs cl ch ^^ m) D)"
proof (induction m arbitrary: D)
  case 0
  show ?case by simp
next
  case (Suc m)
  show ?case
    unfolding funpow_Suc_right o_apply
    using qoi_decode_px_d_p[of D bs cl ch] Suc.IH[of "qoi_decode_px bs cl ch D"] by simp
qed

lemma decode_chunk_local:
  assumes eq: "\<forall>i<L. bs1 ! i = bs2 ! i" and le: "d_p (decode_chunk bs1 D) \<le> L"
  shows "decode_chunk bs1 D = decode_chunk bs2 D"
proof -
  have p: "d_p D < L" using decode_chunk_d_p[of D bs1] le by simp
  then have b1: "bs1 ! d_p D = bs2 ! d_p D" using eq by simp
  show ?thesis
  proof (cases "uint (bs1 ! d_p D) = QOI_OP_RGB")
    case True
    then have "d_p D + 4 \<le> L" using le by (simp add: decode_chunk_def Let_def)
    then have "bs1 ! (d_p D + 1) = bs2 ! (d_p D + 1)" "bs1 ! (d_p D + 1 + 1) = bs2 ! (d_p D + 1 + 1)"
      "bs1 ! (d_p D + 1 + 2) = bs2 ! (d_p D + 1 + 2)" using eq by simp_all
    then show ?thesis using True b1 by (simp add: decode_chunk_def Let_def)
  next
    case nrgb: False
    show ?thesis
    proof (cases "uint (bs1 ! d_p D) = QOI_OP_RGBA")
      case True
      then have "d_p D + 5 \<le> L" using le nrgb by (simp add: decode_chunk_def Let_def)
      then have "bs1 ! (d_p D + 1) = bs2 ! (d_p D + 1)" "bs1 ! (d_p D + 1 + 1) = bs2 ! (d_p D + 1 + 1)"
        "bs1 ! (d_p D + 1 + 2) = bs2 ! (d_p D + 1 + 2)" "bs1 ! (d_p D + 1 + 3) = bs2 ! (d_p D + 1 + 3)"
        using eq by simp_all
      then show ?thesis using True nrgb b1 by (simp add: decode_chunk_def Let_def)
    next
      case nrgba: False
      show ?thesis
      proof (cases "uint (bs1 ! d_p D) AND QOI_MASK_2 = QOI_OP_LUMA")
        case True
        then have "d_p D + 2 \<le> L" using le nrgb nrgba
          by (simp add: decode_chunk_def Let_def QOI_OP_LUMA_def QOI_OP_INDEX_def QOI_OP_DIFF_def)
        then have "bs1 ! (d_p D + 1) = bs2 ! (d_p D + 1)" using eq by simp
        then show ?thesis using True nrgb nrgba b1 by (simp add: decode_chunk_def Let_def)
      next
        case False
        then show ?thesis using nrgb nrgba b1 by (simp add: decode_chunk_def Let_def)
      qed
    qed
  qed
qed

lemma qoi_decode_px_local:
  assumes eq: "\<forall>i<L. bs1 ! i = bs2 ! i" and le: "d_p (qoi_decode_px bs1 cl ch D) \<le> L"
  shows "qoi_decode_px bs1 cl ch D = qoi_decode_px bs2 cl ch D"
proof (cases "d_run D > 0 \<or> \<not> int (d_p D) < cl")
  case True
  then show ?thesis by (auto simp: qoi_decode_px_def)
next
  case False
  then have "d_p (decode_chunk bs1 D) \<le> L" using le by (simp add: qoi_decode_px_def Let_def)
  then have "decode_chunk bs1 D = decode_chunk bs2 D" by (rule decode_chunk_local[OF eq])
  then show ?thesis using False by (simp add: qoi_decode_px_def Let_def)
qed

lemma decode_funpow_local:
  assumes eq: "\<forall>i<L. bs1 ! i = bs2 ! i"
  shows "d_p ((qoi_decode_px bs1 cl ch ^^ m) D) \<le> L \<Longrightarrow>
     (qoi_decode_px bs1 cl ch ^^ m) D = (qoi_decode_px bs2 cl ch ^^ m) D"
proof (induction m arbitrary: D)
  case 0
  show ?case by simp
next
  case (Suc m)
  have le: "d_p ((qoi_decode_px bs1 cl ch ^^ m) (qoi_decode_px bs1 cl ch D)) \<le> L"
    using Suc.prems unfolding funpow_Suc_right o_apply .
  have "d_p (qoi_decode_px bs1 cl ch D) \<le> L"
    using decode_funpow_d_p_mono[where D = "qoi_decode_px bs1 cl ch D" and bs = bs1 and cl = cl
        and ch = ch and m = m] le by simp
  then have s: "qoi_decode_px bs1 cl ch D = qoi_decode_px bs2 cl ch D"
    by (rule qoi_decode_px_local[OF eq])
  show ?case
    unfolding funpow_Suc_right o_apply using Suc.IH[OF le] s by simp
qed

text \<open>
  Claim C9. In a stream \<open>S\<close> produced by \<^verbatim>\<open>qoi_encode\<close>, replacing the final 8 bytes
  by any 8 bytes \<open>t\<close> does not change what \<^verbatim>\<open>qoi_decode\<close> returns, for every accepted
  channel request (0, 3 or 4), and the result is not \<^verbatim>\<open>NULL\<close>.
\<close>

theorem qoi_decode_ignores_terminator:
  assumes v: "\<not> desc_invalid d"
    and len: "length P = unat (width d) * unat (height d) * unat (channels d)"
    and enc: "qoi_encode alloc_e (Some P) (Some d) True = Some (S, m)"
    and t: "length t = 8"
    and c: "c' = 3 \<or> c' = 4" and ch: "chans = int c' \<or> chans = 0 \<and> c' = unat (channels d)"
    and al: "alloc_d (unat (width d) * unat (height d) * c')"
  shows "qoi_decode alloc_d (Some (take (length S - 8) S @ t)) True chans =
           qoi_decode alloc_d (Some S) True chans \<and>
         qoi_decode alloc_d (Some S) True chans \<noteq> None"
proof -
  define E where "E = encode_pixels write_8 P d (colorspace d)"
  define B where "B = e_bytes E"
  define n where "n = unat (width d) * unat (height d)"
  note s = encoded_sync[OF v len, folded E_def]
  from s(3) obtain C where C: "B = e_bytes (enc_init d (colorspace d)) @ C"
    unfolding B_def by blast
  have S: "S = B @ qoi_padding"
    using enc v unfolding B_def E_def
    by (auto simp: qoi_encode_def Let_def qoi_padding_def split: if_splits)
  have tk: "take (length S - 8) S = B" unfolding S by (simp add: qoi_padding_def)
  have d1: "qoi_decode alloc_d (Some (B @ qoi_padding)) True chans =
     Some (d_pixels ((qoi_decode_px (B @ qoi_padding) (int (length (B @ qoi_padding)) - 8) (int c') ^^ n)
                       (dec_init 14)), d)"
  proof -
    have b: "B @ qoi_padding = e_bytes (enc_init d (colorspace d)) @ (C @ qoi_padding)"
      by (simp add: C)
    have r: "8 \<le> length (C @ qoi_padding)" by (simp add: qoi_padding_def)
    show ?thesis
      unfolding n_def
      by (rule qoi_decode_encoded_header[where alloc = alloc_d, OF v b r c ch al])
  qed
  have d2: "qoi_decode alloc_d (Some (B @ t)) True chans =
     Some (d_pixels ((qoi_decode_px (B @ t) (int (length (B @ t)) - 8) (int c') ^^ n)
                       (dec_init 14)), d)"
  proof -
    have b: "B @ t = e_bytes (enc_init d (colorspace d)) @ (C @ t)"
      by (simp add: C)
    have r: "8 \<le> length (C @ t)" by (simp add: t)
    show ?thesis
      unfolding n_def
      by (rule qoi_decode_encoded_header[where alloc = alloc_d, OF v b r c ch al])
  qed
  have ds: "dec_sync P (unat (channels d)) n E qoi_padding"
    using s(1) unfolding n_def by (simp add: sync_def qoi_padding_def)
  then have "d_p (dec_at (B @ qoi_padding) (unat (channels d)) n) = length B"
    using s(2) by (simp add: dec_sync_def Let_def B_def)
  then have p: "d_p ((qoi_decode_px (B @ qoi_padding) (int (length (B @ qoi_padding)) - 8) (int c') ^^ n)
      (dec_init 14)) \<le> length B"
    unfolding dec_at_def
    using decode_funpow_d_p[where bs = "B @ qoi_padding" and ?c2.0 = "int c'"
        and ?c1.0 = "int (unat (channels d))" and m = n and D = "dec_init 14"
        and cl = "int (length (B @ qoi_padding)) - 8"]
    by simp
  have eq: "\<forall>i<length B. (B @ qoi_padding) ! i = (B @ t) ! i" by (simp add: nth_append)
  have l: "int (length (B @ qoi_padding)) - 8 = int (length (B @ t)) - 8"
    using t by (simp add: qoi_padding_def)
  have "(qoi_decode_px (B @ qoi_padding) (int (length (B @ qoi_padding)) - 8) (int c') ^^ n) (dec_init 14) =
      (qoi_decode_px (B @ t) (int (length (B @ qoi_padding)) - 8) (int c') ^^ n) (dec_init 14)"
    by (rule decode_funpow_local[OF eq p])
  then show ?thesis
    unfolding tk unfolding S d1 d2 l by simp
qed

theorem qoi_decode_ignores_terminator_witness:
  "qoi_decode (\<lambda>_. True)
     (Some (take (length [0x71, 0x6f, 0x69, 0x66, 0, 0, 0, 2, 0, 0, 0, 1, 4, 0, 0xC1,
                          0, 0, 0, 0, 0, 0, 0, 1 :: byte] - 8)
              [0x71, 0x6f, 0x69, 0x66, 0, 0, 0, 2, 0, 0, 0, 1, 4, 0, 0xC1, 0, 0, 0, 0, 0, 0, 0, 1] @
            [9, 8, 7, 6, 5, 4, 3, 2])) True 3 =
   qoi_decode (\<lambda>_. True)
     (Some [0x71, 0x6f, 0x69, 0x66, 0, 0, 0, 2, 0, 0, 0, 1, 4, 0, 0xC1, 0, 0, 0, 0, 0, 0, 0, 1]) True 3 \<and>
   qoi_decode (\<lambda>_. True)
     (Some [0x71, 0x6f, 0x69, 0x66, 0, 0, 0, 2, 0, 0, 0, 1, 4, 0, 0xC1, 0, 0, 0, 0, 0, 0, 0, 1]) True 3 \<noteq> None"
proof -
  have v: "\<not> desc_invalid \<lparr>width = 2, height = 1, channels = 4, colorspace = 0\<rparr>"
    by code_simp
  have e: "qoi_encode (\<lambda>_. True) (Some [0, 0, 0, 255, 0, 0, 0, 255])
     (Some \<lparr>width = 2, height = 1, channels = 4, colorspace = 0\<rparr>) True =
   Some ([0x71, 0x6f, 0x69, 0x66, 0, 0, 0, 2, 0, 0, 0, 1, 4, 0, 0xC1, 0, 0, 0, 0, 0, 0, 0, 1], 23)"
    by code_simp
  show ?thesis
    using qoi_decode_ignores_terminator[OF v _ e, of "[9, 8, 7, 6, 5, 4, 3, 2]" 3 3 "\<lambda>_. True"]
    by simp
qed

section \<open>Size of the encoded stream\<close>

lemma enc_at_length:
  assumes c: "chans = 3 \<or> chans = 4"
  shows "length (e_bytes (enc_at write_8 P chans px_end k (enc_init d cs))) +
           (if e_run (enc_at write_8 P chans px_end k (enc_init d cs)) > 0 then 1 else 0)
           \<le> 14 + k * (chans + 1) \<and>
         e_px (enc_at write_8 P chans px_end k (enc_init d cs)) =
           e_px_prev (enc_at write_8 P chans px_end k (enc_init d cs))"
proof (induction k)
  case 0
  show ?case by (simp add: enc_init_def qoi_write_32_def)
next
  case (Suc k)
  define E where "E = enc_at write_8 P chans px_end k (enc_init d cs)"
  define E' where "E' = qoi_encode_px write_8 P chans px_end (k * chans) E"
  have ih: "length (e_bytes E) + (if e_run E > 0 then 1 else 0) \<le> 14 + k * (chans + 1)"
    "e_px E = e_px_prev E"
    using Suc by (simp_all add: E_def)
  obtain C where C: "e_bytes E' = e_bytes E @ C"
    "length C + (if e_run E' > 0 then 1 else 0) \<le> (if e_run E > 0 then 1 else 0) + chans + 1"
    using encode_px_bytes(1)[OF c ih(2), of P px_end "k * chans"] unfolding E'_def by blast
  have "e_px E' = e_px_prev E'"
    unfolding E'_def by (rule encode_px_bytes(2)[OF c ih(2)])
  moreover have "length (e_bytes E') + (if e_run E' > 0 then 1 else 0) \<le> 14 + Suc k * (chans + 1)"
    using C ih(1) by (simp split: if_splits)
  ultimately show ?case
    unfolding enc_at.simps E_def[symmetric] E'_def[symmetric] by simp
qed


text \<open>
  Claim C10. Whenever \<^verbatim>\<open>qoi_encode\<close> returns a stream, \<^verbatim>\<open>*out_len\<close> is its length and
  the length is at most the allocated \<^verbatim>\<open>max_size\<close>; as every write goes to the current
  end of the stream, every offset written is below \<^verbatim>\<open>max_size\<close>.
\<close>

theorem qoi_encode_within_max_size:
  assumes "qoi_encode alloc data (Some d) out_len = Some (bytes, n)"
  shows "n = length bytes \<and> length bytes \<le> max_size d \<and> (\<forall>i < length bytes. i < max_size d)"
proof -
  from assms obtain P where P: "data = Some P" by (cases data) (auto simp: qoi_encode_def)
  from assms have v: "\<not> desc_invalid d"
    unfolding P by (auto simp: qoi_encode_def split: if_splits)
  note f = desc_valid_facts[OF v]
  define E where "E = encode_pixels write_8 P d (colorspace d)"
  have b: "bytes = e_bytes E @ qoi_padding" "n = length bytes"
    using assms unfolding P E_def
    by (auto simp: qoi_encode_def Let_def qoi_padding_def split: if_splits)
  define m where "m = unat (width d) * unat (height d) * (unat (channels d) + 1)"
  have E: "E = enc_at write_8 P (unat (channels d))
       (unat (width d) * unat (height d) * unat (channels d) - unat (channels d))
       (unat (width d) * unat (height d)) (enc_init d (colorspace d))"
    unfolding E_def by (rule encode_pixels_enc_at[OF v])
  have "length (e_bytes E) + (if e_run E > 0 then 1 else 0) \<le> 14 + m"
    unfolding E m_def using enc_at_length[OF f(3)] by blast
  then have "length (e_bytes E) \<le> 14 + m"
    by (simp split: if_splits)
  then have "length bytes \<le> max_size d"
    unfolding desc_valid_px_len(2)[OF v] b m_def[symmetric] by (simp add: qoi_padding_def)
  then show ?thesis using b(2) by simp
qed


theorem qoi_encode_within_max_size_witness:
  "23 = length [0x71, 0x6f, 0x69, 0x66, 0, 0, 0, 2, 0, 0, 0, 1, 4, 0, 0xC1, 0, 0, 0, 0, 0, 0, 0, 1 :: byte] \<and>
   length [0x71, 0x6f, 0x69, 0x66, 0, 0, 0, 2, 0, 0, 0, 1, 4, 0, 0xC1, 0, 0, 0, 0, 0, 0, 0, 1 :: byte]
     \<le> max_size \<lparr>width = 2, height = 1, channels = 4, colorspace = 0\<rparr>"
proof -
  have e: "qoi_encode (\<lambda>_. True) (Some [0, 0, 0, 255, 0, 0, 0, 255])
     (Some \<lparr>width = 2, height = 1, channels = 4, colorspace = 0\<rparr>) True =
   Some ([0x71, 0x6f, 0x69, 0x66, 0, 0, 0, 2, 0, 0, 0, 1, 4, 0, 0xC1, 0, 0, 0, 0, 0, 0, 0, 1], 23)"
    by code_simp
  show ?thesis
    using qoi_encode_within_max_size[OF e] by simp
qed

section \<open>Failures of the encoder\<close>

lemma byte_not_3_4: "(c::byte) < 3 \<or> c > 4 \<longleftrightarrow> c \<noteq> 3 \<and> c \<noteq> 4"
  unfolding word_less_nat_alt word_unat_eq_iff by simp arith


text \<open>
  Claim C5. \<^verbatim>\<open>qoi_encode\<close> returns \<^verbatim>\<open>NULL\<close> exactly when \<^verbatim>\<open>data\<close>, \<^verbatim>\<open>desc\<close> or
  \<^verbatim>\<open>out_len\<close> is null, a dimension is 0, \<^verbatim>\<open>channels\<close> is neither 3 nor 4, \<^verbatim>\<open>colorspace\<close>
  exceeds 1, \<^verbatim>\<open>height >= 400000000 / width\<close>, or the allocation fails.
\<close>

theorem qoi_encode_null_iff:
  "qoi_encode alloc data desc out_len = None \<longleftrightarrow>
     data = None \<or> desc = None \<or> \<not> out_len \<or>
     (\<exists>d. desc = Some d \<and>
        (width d = 0 \<or> height d = 0 \<or> (channels d \<noteq> 3 \<and> channels d \<noteq> 4) \<or>
         colorspace d > 1 \<or> height d \<ge> 400000000 div width d \<or>
         \<not> alloc (max_size d)))"
  by (cases data; cases desc)
     (auto simp: qoi_encode_def desc_invalid_def QOI_PIXELS_MAX_def Let_def byte_not_3_4[symmetric])

theorem qoi_encode_null_iff_witness:
  "qoi_encode (\<lambda>_. True) (Some [10, 20, 30, 40]) (Some \<lparr>width = 1, height = 1, channels = 4, colorspace = 0\<rparr>) True \<noteq> None \<and>
   qoi_encode (\<lambda>_. True) (Some [10, 20, 30, 40]) (Some \<lparr>width = 1, height = 1, channels = 5, colorspace = 0\<rparr>) True = None \<and>
   qoi_encode (\<lambda>_. False) (Some [10, 20, 30, 40]) (Some \<lparr>width = 1, height = 1, channels = 4, colorspace = 0\<rparr>) True = None"
  using qoi_encode_null_iff[of "\<lambda>_. True" "Some [10, 20, 30, 40]" "Some \<lparr>width = 1, height = 1, channels = 4, colorspace = 0\<rparr>" True]
    qoi_encode_null_iff[of "\<lambda>_. True" "Some [10, 20, 30, 40]" "Some \<lparr>width = 1, height = 1, channels = 5, colorspace = 0\<rparr>" True]
    qoi_encode_null_iff[of "\<lambda>_. False" "Some [10, 20, 30, 40]" "Some \<lparr>width = 1, height = 1, channels = 4, colorspace = 0\<rparr>" True]
  by (simp add: word_le_nat_alt)


section \<open>Concrete streams\<close>

text \<open>
  Claim C7 as stated: the body of the stream for the 2x1 image of two pixels (0,0,0,255)
  is the byte 0xC0. It is not: the encoder does not produce that stream.
\<close>

theorem c7_counterexample:
  "qoi_encode (\<lambda>_. True) (Some [0, 0, 0, 255, 0, 0, 0, 255])
     (Some \<lparr>width = 2, height = 1, channels = 4, colorspace = 0\<rparr>) True \<noteq>
   Some ([0x71, 0x6f, 0x69, 0x66, 0, 0, 0, 2, 0, 0, 0, 1, 4, 0] @ [0xC0] @ [0, 0, 0, 0, 0, 0, 0, 1], 23)"
  by code_simp


text \<open>
  Claim C7, amended. The body is the single byte 0xC1 (a run of 2, stored as 2 - 1),
  between the 14-byte header and the end marker.
\<close>

theorem c7_body:
  "qoi_encode (\<lambda>_. True) (Some [0, 0, 0, 255, 0, 0, 0, 255])
     (Some \<lparr>width = 2, height = 1, channels = 4, colorspace = 0\<rparr>) True =
   Some ([0x71, 0x6f, 0x69, 0x66, 0, 0, 0, 2, 0, 0, 0, 1, 4, 0] @ [0xC1] @ [0, 0, 0, 0, 0, 0, 0, 1], 23)"
  by code_simp

theorem c7_body_witness:
  "\<exists>S. qoi_encode (\<lambda>_. True) (Some [0, 0, 0, 255, 0, 0, 0, 255])
         (Some \<lparr>width = 2, height = 1, channels = 4, colorspace = 0\<rparr>) True = Some (S, 23) \<and>
       take 1 (drop 14 S) = [0xC1] \<and> drop 15 S = [0, 0, 0, 0, 0, 0, 0, 1]"
  using c7_body by simp

section \<open>Truncated input\<close>

text \<open>
  Claim C4 as stated: a stream with a valid header and no chunk data makes
  \<^verbatim>\<open>qoi_decode\<close> return \<^verbatim>\<open>NULL\<close>. It returns a full pixel buffer instead.
\<close>

theorem c4_counterexample:
  "qoi_decode (\<lambda>_. True)
     (Some ([0x71, 0x6f, 0x69, 0x66, 0, 0, 0, 1, 0, 0, 0, 1, 4, 0] @ [0, 0, 0, 0, 0, 0, 0, 1])) True 4 =
   Some ([0, 0, 0, 255], \<lparr>width = 1, height = 1, channels = 4, colorspace = 0\<rparr>)"
  by code_simp


text \<open>
  Claim C4, amended. With a valid header (and a successful allocation) \<^verbatim>\<open>qoi_decode\<close>
  never fails on a short body: once the chunk region is exhausted after \<open>k\<close> pixels with no
  run pending, each of the remaining \<open>n - k\<close> pixels is a copy of the last decoded pixel,
  so the buffer returned is written in full.
\<close>

theorem qoi_decode_truncated:
  fixes bs :: "byte list"
  defines "d \<equiv> read_desc bs"
  defines "n \<equiv> unat (width d) * unat (height d)"
  assumes sz: "22 \<le> length bs" and mg: "qoi_read_32 bs 0 = QOI_MAGIC"
    and v: "\<not> desc_invalid d"
    and c: "c' = 3 \<or> c' = 4"
    and ch: "chans = int c' \<or> chans = 0 \<and> c' = unat (channels d)"
    and al: "alloc (n * c')"
    and k: "k \<le> n"
    and D: "D = (qoi_decode_px bs (int (length bs) - 8) (int c') ^^ k) (dec_init 14)"
    and ex: "d_run D = 0" "int (length bs) - 8 \<le> int (d_p D)"
  shows "qoi_decode alloc (Some bs) True chans =
           Some (d_pixels D @ concat (replicate (n - k) (px_bytes (int c') (d_px D))), d)"
proof -
  have nk: "n = (n - k) + k" using k by simp
  have "(qoi_decode_px bs (int (length bs) - 8) (int c') ^^ n) (dec_init 14) =
      (qoi_decode_px bs (int (length bs) - 8) (int c') ^^ (n - k)) D"
    unfolding D by (subst nk) (simp only: funpow_add o_apply)
  also have "\<dots> = D\<lparr>d_pixels := d_pixels D @ concat (replicate (n - k) (px_bytes (int c') (d_px D)))\<rparr>"
    using ex by (intro decode_exhausted) simp_all
  finally show ?thesis
    using qoi_decode_valid_header[OF sz mg v[unfolded d_def] c ch[unfolded d_def], of alloc]
      al unfolding n_def d_def by simp
qed


theorem qoi_decode_truncated_witness:
  "qoi_decode (\<lambda>_. True)
     (Some [0x71, 0x6f, 0x69, 0x66, 0, 0, 0, 2, 0, 0, 0, 1, 4, 0, 0xFF, 1, 2, 3, 4, 0, 0, 0, 0, 0, 0, 0, 1]) True 4 =
   Some ([1, 2, 3, 4] @ concat (replicate 1 [1, 2, 3, 4]), \<lparr>width = 2, height = 1, channels = 4, colorspace = 0\<rparr>)"
proof -
  let ?bs = "[0x71, 0x6f, 0x69, 0x66, 0, 0, 0, 2, 0, 0, 0, 1, 4, 0, 0xFF, 1, 2, 3, 4, 0, 0, 0, 0, 0, 0, 0, 1] :: byte list"
  let ?D = "\<lparr>d_p = 19, d_run = 0, d_index = (replicate 64 zero_px)[14 := \<lparr>rgba_r = 1, rgba_g = 2, rgba_b = 3, rgba_a = 4\<rparr>],
            d_px = \<lparr>rgba_r = 1, rgba_g = 2, rgba_b = 3, rgba_a = 4\<rparr>, d_pixels = [1, 2, 3, 4]\<rparr>"
  have rd: "read_desc ?bs = \<lparr>width = 2, height = 1, channels = 4, colorspace = 0\<rparr>" by code_simp
  have v: "\<not> desc_invalid (read_desc ?bs)" by code_simp
  have mg: "qoi_read_32 ?bs 0 = QOI_MAGIC" by code_simp
  have D: "?D = (qoi_decode_px ?bs (int (length ?bs) - 8) (int 4) ^^ 1) (dec_init 14)"
    by code_simp
  show ?thesis
    using qoi_decode_truncated[OF _ mg v _ _ _ _ D, of 4 "\<lambda>_. True"]
    by (simp add: rd px_bytes_def)
qed

section \<open>The two index caches\<close>

text \<open>
  Claim C3 at the 1x1 image whose pixel is (0,0,0,255): the encoder emits one run chunk
  and leaves slot 53 of its index zeroed; the decoder, reading that chunk, stores
  (0,0,0,255) in slot 53 of its own.
\<close>

theorem c3_eval:
  "e_index (encode_pixels write_8 [0, 0, 0, 255] \<lparr>width = 1, height = 1, channels = 4, colorspace = 0\<rparr> 0) ! 53 = zero_px \<and>
   e_bytes (encode_pixels write_8 [0, 0, 0, 255] \<lparr>width = 1, height = 1, channels = 4, colorspace = 0\<rparr> 0) @ qoi_padding
      = [0x71, 0x6f, 0x69, 0x66, 0, 0, 0, 1, 0, 0, 0, 1, 4, 0, 0xC0, 0, 0, 0, 0, 0, 0, 0, 1] \<and>
   d_index (qoi_decode_buffer [0x71, 0x6f, 0x69, 0x66, 0, 0, 0, 1, 0, 0, 0, 1, 4, 0, 0xC0, 0, 0, 0, 0, 0, 0, 0, 1] 14 23 4 4) ! 53 = start_px"
  by code_simp

theorem c3_eval_witness:
  "e_index (encode_pixels write_8 [0, 0, 0, 255]
      \<lparr>width = 1, height = 1, channels = 4, colorspace = 0\<rparr> 0) \<noteq>
   d_index (qoi_decode_buffer
      [0x71, 0x6f, 0x69, 0x66, 0, 0, 0, 1, 0, 0, 0, 1, 4, 0, 0xC0, 0, 0, 0, 0, 0, 0, 0, 1] 14 23 4 4)"
proof
  assume "e_index (encode_pixels write_8 [0, 0, 0, 255]
      \<lparr>width = 1, height = 1, channels = 4, colorspace = 0\<rparr> 0) =
   d_index (qoi_decode_buffer
      [0x71, 0x6f, 0x69, 0x66, 0, 0, 0, 1, 0, 0, 0, 1, 4, 0, 0xC0, 0, 0, 0, 0, 0, 0, 0, 1] 14 23 4 4)"
  then have "zero_px = start_px" using c3_eval by metis
  then show False by (simp add: zero_px_def start_px_def)
qed

end
